theory Spec2Isabelle
  imports Main "HOL-Library.Multiset" "HOL-Library.AList"
begin

section \<open>Strings of the runtime\<close>

text \<open>
  The wiki runtime \<^verbatim>\<open>km_testing.js\<close> works on JavaScript strings. They are modelled as
  \<^typ>\<open>string\<close>, one \<^typ>\<open>char\<close> per code unit, for ASCII text: the character classes
  \<^verbatim>\<open>\s\<close> and \<^verbatim>\<open>\w\<close> and the case mapping below are the ASCII part of the
  JavaScript ones.
\<close>

definition is_space :: "char \<Rightarrow> bool" where
  \<comment> \<open>the class \<^verbatim>\<open>\s\<close>, which is also what \<^verbatim>\<open>trim\<close> strips\<close>
  "is_space c = (c = CHR '' '' \<or> c = CHR 0x09 \<or> c = CHR 0x0A \<or> c = CHR 0x0B
                 \<or> c = CHR 0x0C \<or> c = CHR 0x0D)"

definition is_word :: "char \<Rightarrow> bool" where
  \<comment> \<open>the class \<^verbatim>\<open>\w\<close>: letters, digits and the underscore\<close>
  "is_word c = (let n = (of_char c :: nat) in
     (48 \<le> n \<and> n \<le> 57) \<or> (65 \<le> n \<and> n \<le> 90) \<or> n = 95 \<or> (97 \<le> n \<and> n \<le> 122))"

definition lower_char :: "char \<Rightarrow> char" where
  "lower_char c = (let n = (of_char c :: nat) in
     if 65 \<le> n \<and> n \<le> 90 then char_of (n + 32) else c)"

definition toLowerCase :: "string \<Rightarrow> string" where
  "toLowerCase s = map lower_char s"

definition trim :: "string \<Rightarrow> string" where
  "trim s = rev (dropWhile is_space (rev (dropWhile is_space s)))"

fun startsWith :: "string \<Rightarrow> string \<Rightarrow> bool" where
  "startsWith s [] = True"
| "startsWith [] (c # t) = False"
| "startsWith (d # s) (c # t) = (d = c \<and> startsWith s t)"

fun includes_s :: "string \<Rightarrow> string \<Rightarrow> bool" where
  \<comment> \<open>\<^verbatim>\<open>s.includes(t)\<close>: \<open>t\<close> occurs in \<open>s\<close> as a substring\<close>
  "includes_s [] t = (t = [])"
| "includes_s (c # s) t = (startsWith (c # s) t \<or> includes_s s t)"

fun join :: "string \<Rightarrow> string list \<Rightarrow> string" where
  "join sep [] = []"
| "join sep [x] = x"
| "join sep (x # y # xs) = x @ sep @ join sep (y # xs)"

function split_ws :: "string \<Rightarrow> string list" where
  \<comment> \<open>\<^verbatim>\<open>s.split(/\s+/)\<close>: the pieces between the maximal runs of whitespace\<close>
  "split_ws s =
     (let w = takeWhile (\<lambda>c. \<not> is_space c) s; r = dropWhile (\<lambda>c. \<not> is_space c) s
      in if r = [] then [w] else w # split_ws (dropWhile is_space r))"
  by pat_completeness auto
termination
proof (relation "measure length")
  show "wf (measure length)" by simp
next
  fix s :: string and w r
  assume r: "r = dropWhile (\<lambda>c. \<not> is_space c) s" and ne: "r \<noteq> []"
  have "is_space (hd r)"
    using ne hd_dropWhile [of "\<lambda>c. \<not> is_space c" s] by (simp add: r)
  then have "dropWhile is_space r = dropWhile is_space (tl r)"
    using ne by (cases r) auto
  then have "length (dropWhile is_space r) \<le> length (tl r)"
    using length_dropWhile_le [of is_space "tl r"] by simp
  also have "\<dots> < length r" using ne by (cases r) auto
  also have "\<dots> \<le> length s" by (simp add: r length_dropWhile_le)
  finally show "(dropWhile is_space r, s) \<in> measure length" by simp
qed

declare split_ws.simps [simp del]

section \<open>The word-boundary regular expression of the search\<close>

text \<open>
  \<^verbatim>\<open>new RegExp('\\b' + esc(tok) + '\\b', 'g')\<close>: \<open>esc\<close> escapes every regular-expression
  metacharacter, so the pattern is the literal token between two word boundaries.
  The expression carries the flag \<^verbatim>\<open>g\<close>, so \<^verbatim>\<open>test\<close> starts at the
  expression's \<open>lastIndex\<close>, stores the end of the match there when it succeeds and
  resets it to 0 when it fails.
\<close>

definition boundary :: "string \<Rightarrow> nat \<Rightarrow> bool" where
  "boundary s i = ((0 < i \<and> i \<le> length s \<and> is_word (s ! (i - 1)))
                   \<noteq> (i < length s \<and> is_word (s ! i)))"

definition match_at :: "string \<Rightarrow> string \<Rightarrow> nat \<Rightarrow> bool" where
  "match_at tok s i = (boundary s i \<and> take (length tok) (drop i s) = tok
                       \<and> boundary s (i + length tok))"

definition regex_exec :: "string \<Rightarrow> string \<Rightarrow> nat \<Rightarrow> nat option" where
  \<comment> \<open>the start of the first match at or after \<open>lastIndex\<close>\<close>
  "regex_exec tok s lastIndex = List.find (match_at tok s) [lastIndex..<Suc (length s)]"

definition test :: "string \<Rightarrow> string \<Rightarrow> nat \<Rightarrow> bool \<times> nat" where
  \<comment> \<open>\<^verbatim>\<open>r.test(s)\<close> with the expression's \<open>lastIndex\<close> before and after\<close>
  "test tok s lastIndex =
     (case regex_exec tok s lastIndex of
        None \<Rightarrow> (False, 0)
      | Some i \<Rightarrow> (True, i + length tok))"

definition whole_word :: "string \<Rightarrow> string \<Rightarrow> bool" where
  \<comment> \<open>a word-boundary delimited match of the token exists somewhere in \<open>s\<close>\<close>
  "whole_word tok s = (\<exists>i \<in> set [0..<Suc (length s)]. match_at tok s i)"

section \<open>Pages and sections\<close>

record sect =
  id_s :: string
  txt_s :: string
  bodyStart :: nat
  body :: string
  search_s :: string

text \<open>
  A \<^verbatim>\<open>Map\<close> is an association list in the order of insertion, read with \<^const>\<open>map_of\<close> and
  written with \<^const>\<open>AList.update\<close>.

  A page object. References to pages are indices into the array \<^verbatim>\<open>pages\<close>. A metadata
  key that the block does not give is \<^verbatim>\<open>undefined\<close>, here \<^const>\<open>None\<close>; \<open>parent_raw\<close>
  is the string that \<^verbatim>\<open>parent\<close> holds before the pages are linked, \<open>node_i\<close> is the
  field \<^verbatim>\<open>_i\<close>.
\<close>

record page =
  id_p :: "string option"
  title :: "string option"
  parent_raw :: "string option"
  tags :: "string option"
  content :: string
  parent :: "nat option"
  children :: "nat list"
  tagsSet :: "string list"
  searchStr :: string
  sections :: "sect list"
  isSecondary :: bool
  clusterId :: "nat option"
  hash :: "string option"
  node_i :: "nat option"

datatype error = NoPagesParsed | TypeError

section \<open>Ranked search\<close>

definition W_title :: nat where "W_title = 5"
definition W_tag :: nat where "W_tag = 3"
definition W_body :: nat where "W_body = 1"
definition W_secTitle :: nat where "W_secTitle = 3"
definition W_secBody :: nat where "W_secBody = 1"
definition W_phraseTitle :: nat where "W_phraseTitle = 5"
definition W_phraseBody :: nat where "W_phraseBody = 2"
definition W_secCountCap :: nat where "W_secCountCap = 4"

definition tokenize :: "string \<Rightarrow> string list" where
  "tokenize val = filter (\<lambda>t. 2 \<le> length t) (split_ws val)"

definition phrase_of :: "string list \<Rightarrow> string \<Rightarrow> string option" where
  "phrase_of tokens val = (if 1 < length tokens then Some val else None)"

definition token_score :: "string \<Rightarrow> string \<Rightarrow> string \<Rightarrow> string \<Rightarrow> nat" where
  \<comment> \<open>one round of the per-token loop: one expression object, three calls of \<open>test\<close>\<close>
  "token_score tok titleL tagsL bodyL =
     (let (b1, l1) = test tok titleL 0;
          (b2, l2) = test tok tagsL l1;
          (b3, l3) = test tok bodyL l2
      in (if b1 then W_title else 0) + (if b2 then W_tag else 0) + (if b3 then W_body else 0))"

definition phrase_bonus :: "string option \<Rightarrow> string \<Rightarrow> string \<Rightarrow> nat" where
  "phrase_bonus phrase titleL bodyL =
     (case phrase of
        None \<Rightarrow> 0
      | Some ph \<Rightarrow> if includes_s titleL ph then W_phraseTitle
                   else if includes_s bodyL ph then W_phraseBody else 0)"

definition sec_token_score :: "string \<Rightarrow> string \<Rightarrow> string \<Rightarrow> nat" where
  "sec_token_score tok secTitle secBody =
     (let (b1, l1) = test tok secTitle 0;
          (b2, l2) = test tok secBody l1
      in (if b1 then W_secTitle else 0) + (if b2 then W_secBody else 0))"

definition sec_score :: "string list \<Rightarrow> string option \<Rightarrow> sect \<Rightarrow> nat" where
  "sec_score tokens phrase sec =
     (let secTitle = toLowerCase (txt_s sec); secBody = toLowerCase (body sec);
          s = fold (\<lambda>tok s. s + sec_token_score tok secTitle secBody) tokens 0
      in case phrase of
           None \<Rightarrow> s
         | Some ph \<Rightarrow> if includes_s secTitle ph \<or> includes_s secBody ph then s + 1 else s)"

definition sec_qualifies :: "string list \<Rightarrow> sect \<Rightarrow> bool" where
  "sec_qualifies tokens sec = list_all (\<lambda>tok. includes_s (search_s sec) tok) tokens"

fun insert_cmp :: "('a \<Rightarrow> 'a \<Rightarrow> int) \<Rightarrow> 'a \<Rightarrow> 'a list \<Rightarrow> 'a list" where
  "insert_cmp cmp x [] = [x]"
| "insert_cmp cmp x (y # ys) =
     (if cmp x y \<le> 0 then x # y # ys else y # insert_cmp cmp x ys)"

definition sort_cmp :: "('a \<Rightarrow> 'a \<Rightarrow> int) \<Rightarrow> 'a list \<Rightarrow> 'a list" where
  \<comment> \<open>\<^verbatim>\<open>Array.prototype.sort\<close> with a comparator: a stable sort\<close>
  "sort_cmp cmp xs = foldr (insert_cmp cmp) xs []"

definition match_sections :: "string list \<Rightarrow> string option \<Rightarrow> sect list \<Rightarrow> (sect \<times> nat) list" where
  "match_sections tokens phrase secs =
     sort_cmp (\<lambda>a b. int (snd b) - int (snd a))
       (map (\<lambda>sec. (sec, sec_score tokens phrase sec)) (filter (sec_qualifies tokens) secs))"

definition page_qualifies :: "string list \<Rightarrow> page \<Rightarrow> bool" where
  "page_qualifies tokens pg = list_all (\<lambda>tok. includes_s (searchStr pg) tok) tokens"

definition page_score :: "string list \<Rightarrow> string option \<Rightarrow> page \<Rightarrow> error + nat \<times> (sect \<times> nat) list" where
  \<comment> \<open>the body of the loop over the ps, for a page that passed the prefilter\<close>
  "page_score tokens phrase pg =
     (case title pg of
        None \<Rightarrow> Inl TypeError
      | Some t \<Rightarrow>
          let titleL = toLowerCase t;
              tagsL = toLowerCase (join '' '' (tagsSet pg));
              bodyL = toLowerCase (content pg);
              score = fold (\<lambda>tok sc. sc + token_score tok titleL tagsL bodyL) tokens 0;
              score = score + phrase_bonus phrase titleL bodyL;
              matchedSecs = match_sections tokens phrase (sections pg)
          in Inr (score + min W_secCountCap (length matchedSecs), matchedSecs))"

record scored =
  ref_p :: nat
  score :: nat
  matchedSecs :: "(sect \<times> nat) list"

fun score_pages :: "string list \<Rightarrow> string option \<Rightarrow> page list \<Rightarrow> nat list \<Rightarrow> error + scored list" where
  "score_pages tokens phrase ps [] = Inr []"
| "score_pages tokens phrase ps (i # is) =
     (if \<not> page_qualifies tokens (ps ! i) then score_pages tokens phrase ps is
      else case page_score tokens phrase (ps ! i) of
             Inl e \<Rightarrow> Inl e
           | Inr (sc, ms) \<Rightarrow>
               (case score_pages tokens phrase ps is of
                  Inl e \<Rightarrow> Inl e
                | Inr rest \<Rightarrow> Inr (\<lparr>ref_p = i, score = sc, matchedSecs = ms\<rparr> # rest)))"

fun compare_str :: "string \<Rightarrow> string \<Rightarrow> int" where
  "compare_str [] [] = 0"
| "compare_str [] (d # t) = - 1"
| "compare_str (c # s) [] = 1"
| "compare_str (c # s) (d # t) =
     (if (of_char c :: nat) < of_char d then - 1
      else if (of_char d :: nat) < of_char c then 1 else compare_str s t)"

definition localeCompare :: "string \<Rightarrow> string \<Rightarrow> int" where
  \<comment> \<open>Modelled from the spec: \<^verbatim>\<open>String.prototype.localeCompare\<close> is a function of the
      host, not of this repository; the specification describes the tie-break it gives as the
      case-insensitive lexicographic order of the titles.\<close>
  "localeCompare a b = compare_str (toLowerCase a) (toLowerCase b)"

definition title_str :: "page \<Rightarrow> string" where
  "title_str pg = (case title pg of None \<Rightarrow> ''undefined'' | Some t \<Rightarrow> t)"

definition rank_cmp :: "page list \<Rightarrow> scored \<Rightarrow> scored \<Rightarrow> int" where
  \<comment> \<open>\<^verbatim>\<open>b.score - a.score || a.p.title.localeCompare(b.p.title)\<close>; every scored page has a title\<close>
  "rank_cmp ps a b =
     (if int (score b) - int (score a) \<noteq> 0 then int (score b) - int (score a)
      else localeCompare (title_str (ps ! ref_p a)) (title_str (ps ! ref_p b)))"

definition search :: "string \<Rightarrow> page list \<Rightarrow> error + scored list option" where
  \<comment> \<open>the ranked list that \<^verbatim>\<open>search\<close> renders; \<^const>\<open>None\<close> is the inactive search of an
      empty query, which restores the tree view\<close>
  "search q ps =
     (let val = toLowerCase (trim q) in
      if val = [] then Inr None
      else
        let tokens = tokenize val; phrase = phrase_of tokens val in
        case score_pages tokens phrase ps [0..<length ps] of
          Inl e \<Rightarrow> Inl e
        | Inr scored \<Rightarrow> Inr (Some (sort_cmp (rank_cmp ps) scored)))"

record model =
  pages :: "page list"
  byId :: "(string option \<times> nat) list"
  root :: nat
  descMemo :: "(nat \<times> nat) list"

section \<open>The bundle parser\<close>

fun indexOf :: "string \<Rightarrow> string \<Rightarrow> nat option" where
  "indexOf [] t = (if t = [] then Some 0 else None)"
| "indexOf (c # s) t = (if startsWith (c # s) t then Some 0 else map_option Suc (indexOf s t))"

lemma indexOf_le: "indexOf s t = Some i \<Longrightarrow> i \<le> length s"
  by (induction s arbitrary: i) (auto split: if_splits)

function blocks :: "string \<Rightarrow> (string \<times> string) list" where
  \<comment> \<open>\<^verbatim>\<open>txt.matchAll(/<!--([\s\S]*?)-->\s*([\s\S]*?)(?=<!--|$)/g)\<close>: the captured
      header and body of every match, in order\<close>
  "blocks s =
     (case indexOf s ''<!--'' of
        None \<Rightarrow> []
      | Some i \<Rightarrow>
          let r = drop (i + 4) s in
          (case indexOf r ''-->'' of
             None \<Rightarrow> []
           | Some j \<Rightarrow>
               let hdr = take j r;
                   rest = dropWhile is_space (drop (j + 3) r);
                   e = (case indexOf rest ''<!--'' of None \<Rightarrow> length rest | Some k \<Rightarrow> k)
               in (hdr, take e rest) # blocks (drop e rest)))"
  by pat_completeness auto
termination
proof (relation "measure length")
  show "wf (measure length)" by simp
next
  fix s :: string and i r j hdr rest e
  assume i: "indexOf s ''<!--'' = Some i" and r: "r = drop (i + 4) s"
    and j: "indexOf r ''-->'' = Some j"
    and rest: "rest = dropWhile is_space (drop (j + 3) r)"
  have "s \<noteq> []" using i by auto
  have "length rest \<le> length (drop (j + 3) r)"
    unfolding rest by (rule length_dropWhile_le)
  also have "\<dots> \<le> length r" by simp
  also have "\<dots> < length s" using \<open>s \<noteq> []\<close> by (simp add: r)
  finally show "(drop e rest, s) \<in> measure length" by simp
qed

declare blocks.simps [simp del]

function parse_meta :: "string \<Rightarrow> (string \<times> string) list" where
  \<comment> \<open>\<^verbatim>\<open>hdr.replace(/(\w+):"([^"]+)"/g, (_, k, v) => (meta[k] = v.trim()))\<close>: the keys and
      trimmed values of the matches, from left to right\<close>
  "parse_meta [] = []"
| "parse_meta (c # s) =
     (let k = takeWhile is_word (c # s); r = dropWhile is_word (c # s) in
      if k \<noteq> [] \<and> startsWith r [CHR '':'', CHR 0x22] then
        let v = takeWhile (\<lambda>x. x \<noteq> CHR 0x22) (drop 2 r);
            r' = dropWhile (\<lambda>x. x \<noteq> CHR 0x22) (drop 2 r)
        in if v \<noteq> [] \<and> r' \<noteq> [] then (k, trim v) # parse_meta (tl r') else parse_meta s
      else parse_meta s)"
  by pat_completeness auto
termination
proof (relation "measure length")
  show "wf (measure length)" by simp
next
  fix c :: char and s k r v r'
  assume r: "r = dropWhile is_word (c # s)"
    and r': "r' = dropWhile (\<lambda>x. x \<noteq> CHR 0x22) (drop 2 r)"
    and ne: "v \<noteq> [] \<and> r' \<noteq> []"
  have "length (tl r') < length r'" using ne by (cases r') auto
  also have "\<dots> \<le> length (drop 2 r)" unfolding r' by (rule length_dropWhile_le)
  also have "\<dots> \<le> length r" by simp
  also have "\<dots> \<le> length (c # s)" unfolding r by (rule length_dropWhile_le)
  finally show "(tl r', c # s) \<in> measure length" by simp
qed simp_all

declare parse_meta.simps [simp del]

definition meta_get :: "(string \<times> string) list \<Rightarrow> string \<Rightarrow> string option" where
  \<comment> \<open>\<^verbatim>\<open>meta[k]\<close> after all the assignments: the last one wins\<close>
  "meta_get meta k = map_of (rev meta) k"

definition truthy :: "string option \<Rightarrow> bool" where
  "truthy v = (case v of None \<Rightarrow> False | Some s \<Rightarrow> s \<noteq> [])"

definition or_empty :: "string option \<Rightarrow> string" where
  \<comment> \<open>\<^verbatim>\<open>(v || '')\<close>\<close>
  "or_empty v = (case v of None \<Rightarrow> [] | Some s \<Rightarrow> s)"

definition new_page :: "string \<times> string \<Rightarrow> page" where
  \<comment> \<open>\<^verbatim>\<open>{ ...meta, content: (body || '').trim(), children: [] }\<close>. Of the keys of the block the
      functions modelled here read \<open>id\<close>, \<open>title\<close>, \<open>parent\<close>, \<open>tags\<close> and
      \<open>isSecondary\<close>; the fields set later are \<^verbatim>\<open>undefined\<close> until then.\<close>
  "new_page hb =
     (let meta = parse_meta (fst hb) in
      \<lparr>id_p = meta_get meta ''id'', title = meta_get meta ''title'',
       parent_raw = meta_get meta ''parent'', tags = meta_get meta ''tags'',
       content = trim (snd hb), parent = None, children = [], tagsSet = [], searchStr = [],
       sections = [], isSecondary = truthy (meta_get meta ''isSecondary''), clusterId = None,
       hash = None, node_i = None\<rparr>)"

fun split_char :: "char \<Rightarrow> string \<Rightarrow> string list" where
  \<comment> \<open>\<^verbatim>\<open>s.split(c)\<close> for a separator of one character\<close>
  "split_char sep [] = [[]]"
| "split_char sep (c # s) =
     (if c = sep then [] # split_char sep s
      else (case split_char sep s of [] \<Rightarrow> [[c]] | w # ws \<Rightarrow> (c # w) # ws))"

definition set_of_list :: "string list \<Rightarrow> string list" where
  \<comment> \<open>\<^verbatim>\<open>new Set(xs)\<close>, in its iteration order: the first occurrence of every element\<close>
  "set_of_list xs = foldl (\<lambda>acc x. if x \<in> set acc then acc else acc @ [x]) [] xs"

definition parse_tags :: "string option \<Rightarrow> string list" where
  "parse_tags t = set_of_list (filter (\<lambda>s. s \<noteq> []) (map trim (split_char CHR '','' (or_empty t))))"

definition link_page :: "(string option \<times> nat) list \<Rightarrow> nat \<Rightarrow> nat \<Rightarrow> page list \<Rightarrow> page list" where
  \<comment> \<open>one round of the first \<^verbatim>\<open>pages.forEach\<close>: the parent and children links, the tag set
      and the search string of page \<open>i\<close>\<close>
  "link_page by_id rt i ps =
     (let ps1 =
        (if i \<noteq> rt then
           let par = map_of by_id (Some (trim (or_empty (parent_raw (ps ! i)))));
               ps' = ps[i := (ps ! i)\<lparr>parent := par\<rparr>]
           in (case par of
                 None \<Rightarrow> ps'
               | Some q \<Rightarrow> ps'[q := (ps' ! q)\<lparr>children := children (ps' ! q) @ [i]\<rparr>])
         else ps[i := (ps ! i)\<lparr>parent := None\<rparr>]);
          ts = parse_tags (tags (ps1 ! i))
      in ps1[i := (ps1 ! i)\<lparr>tagsSet := ts,
            searchStr := toLowerCase (title_str (ps1 ! i) @ '' '' @ join '' '' ts @ '' ''
                                      @ content (ps1 ! i))\<rparr>])"

subsection \<open>Sections of a page\<close>

definition split_lines :: "string \<Rightarrow> string list" where
  \<comment> \<open>\<^verbatim>\<open>s.split(/\r?\n/)\<close>\<close>
  "split_lines s =
     (let ls = split_char (CHR 0x0A) s in
      map (\<lambda>l. if l \<noteq> [] \<and> last l = CHR 0x0D then butlast l else l) (butlast ls) @ [last ls])"

definition is_fence :: "string \<Rightarrow> bool" where
  \<comment> \<open>\<^verbatim>\<open>/^(?:```|~~~)/.test(line)\<close>\<close>
  "is_fence line = (startsWith line ''```'' \<or> startsWith line ''~~~'')"

definition is_hash :: "char \<Rightarrow> bool" where
  "is_hash c = (c = CHR 0x23)"

definition heading_test :: "string \<Rightarrow> bool" where
  \<comment> \<open>\<^verbatim>\<open>/^(#{1,6})\s+/.test(line)\<close>\<close>
  "heading_test line =
     (let h = takeWhile is_hash line; r = dropWhile is_hash line
      in 1 \<le> length h \<and> length h \<le> 6 \<and> r \<noteq> [] \<and> is_space (hd r))"

definition is_line_end :: "char \<Rightarrow> bool" where
  \<comment> \<open>the characters that \<^verbatim>\<open>.\<close> does not match\<close>
  "is_line_end c = (c = CHR 0x0A \<or> c = CHR 0x0D)"

definition heading_match :: "string \<Rightarrow> (string \<times> string) option" where
  \<comment> \<open>\<^verbatim>\<open>line.match(/^(#{1,6})\s+(.+)/)\<close>: the two groups, or \<^const>\<open>None\<close> for
      \<^verbatim>\<open>null\<close>. The whitespace is matched greedily and gives characters back, from its
      end, until \<^verbatim>\<open>(.+)\<close> finds a character to start with.\<close>
  "heading_match line =
     (let h = takeWhile is_hash line; r = dropWhile is_hash line;
          ws = takeWhile is_space r; rest = dropWhile is_space r
      in if 1 \<le> length h \<and> length h \<le> 6 \<and> ws \<noteq> [] then
           (if rest \<noteq> [] then Some (h, takeWhile (\<lambda>c. \<not> is_line_end c) rest)
            else (case List.find (\<lambda>k. \<not> is_line_end (ws ! k)) (rev [1..<length ws]) of
                    None \<Rightarrow> None
                  | Some k \<Rightarrow> Some (h, takeWhile (\<lambda>c. \<not> is_line_end c) (drop k ws))))
         else None)"

definition digit_char :: "nat \<Rightarrow> char" where
  "digit_char d = char_of (48 + d)"

function show_nat :: "nat \<Rightarrow> string" where
  \<comment> \<open>the decimal digits of a counter, as \<^verbatim>\<open>join\<close> writes a number\<close>
  "show_nat n = (if n < 10 then [digit_char n] else show_nat (n div 10) @ [digit_char (n mod 10)])"
  by pat_completeness auto
termination
  by (relation "measure id") auto

declare show_nat.simps [simp del]

definition slice :: "string \<Rightarrow> nat \<Rightarrow> nat \<Rightarrow> string" where
  \<comment> \<open>\<^verbatim>\<open>s.slice(a, b)\<close> for indices that are not negative\<close>
  "slice s a b = take (b - a) (drop a s)"

record scan =
  counters :: "nat list"
  sections_l :: "sect list"
  inFence :: bool
  offset :: nat
  prev :: "sect option"

definition scan0 :: scan where
  "scan0 = \<lparr>counters = [0, 0, 0, 0, 0, 0], sections_l = [], inFence = False, offset = 0, prev = None\<rparr>"

definition commit :: "sect \<Rightarrow> string \<Rightarrow> sect" where
  \<comment> \<open>the body and the search text of a heading whose section ends\<close>
  "commit pv b = pv\<lparr>body := trim b, search_s := toLowerCase (txt_s pv @ '' '' @ trim b)\<rparr>"

definition bump :: "nat list \<Rightarrow> nat \<Rightarrow> nat list" where
  \<comment> \<open>\<^verbatim>\<open>counters[level]++; for (let i = level + 1; i < 6; i++) counters[i] = 0;\<close>\<close>
  "bump cs level = take level cs @ [cs ! level + 1] @ replicate (5 - level) 0"

definition section_id :: "nat list \<Rightarrow> nat \<Rightarrow> string" where
  \<comment> \<open>\<^verbatim>\<open>counters.slice(0, level + 1).filter(Boolean).join('_')\<close>\<close>
  "section_id cs level = join ''_'' (map show_nat (filter (\<lambda>n. n \<noteq> 0) (take (level + 1) cs)))"

definition scan_line :: "string \<Rightarrow> string \<Rightarrow> scan \<Rightarrow> error + scan" where
  \<comment> \<open>one round of the loop over the lines of the content \<open>c\<close>\<close>
  "scan_line c line st =
     (let fence = (if is_fence line then \<not> inFence st else inFence st) in
      if \<not> fence \<and> heading_test line then
        let done = (case prev st of
                      None \<Rightarrow> sections_l st
                    | Some pv \<Rightarrow> sections_l st @ [commit pv (slice c (bodyStart pv) (offset st))])
        in (case heading_match line of
              None \<Rightarrow> Inl TypeError
            | Some (hashes, t) \<Rightarrow>
                let level = length hashes - 1; cs = bump (counters st) level in
                Inr \<lparr>counters = cs, sections_l = done, inFence = fence,
                     offset = offset st + length line + 1,
                     prev = Some \<lparr>id_s = section_id cs level, txt_s = trim t,
                                  bodyStart = offset st + length line + 1, body = [],
                                  search_s = []\<rparr>\<rparr>)
      else Inr (st\<lparr>inFence := fence, offset := offset st + length line + 1\<rparr>))"

fun scan_lines :: "string \<Rightarrow> string list \<Rightarrow> scan \<Rightarrow> error + scan" where
  "scan_lines c [] st = Inr st"
| "scan_lines c (line # ls) st =
     (case scan_line c line st of Inl e \<Rightarrow> Inl e | Inr st' \<Rightarrow> scan_lines c ls st')"

definition extract_sections :: "string \<Rightarrow> error + sect list" where
  \<comment> \<open>the second \<^verbatim>\<open>pages.forEach\<close>, for a page of content \<open>c\<close>\<close>
  "extract_sections c =
     (case scan_lines c (split_lines c) scan0 of
        Inl e \<Rightarrow> Inl e
      | Inr st \<Rightarrow>
          Inr (case prev st of
                 None \<Rightarrow> sections_l st
               | Some pv \<Rightarrow> sections_l st @ [commit pv (drop (bodyStart pv) c)]))"

fun index_pages :: "page list \<Rightarrow> nat list \<Rightarrow> error + page list" where
  "index_pages ps [] = Inr ps"
| "index_pages ps (i # is) =
     (case extract_sections (content (ps ! i)) of
        Inl e \<Rightarrow> Inl e
      | Inr ss \<Rightarrow> index_pages (ps[i := (ps ! i)\<lparr>sections := ss\<rparr>]) is)"

definition set_byId :: "page list \<Rightarrow> (string option \<times> nat) list" where
  \<comment> \<open>\<^verbatim>\<open>byId\<close> after \<^verbatim>\<open>byId.set(page.id, page)\<close> for every page in turn\<close>
  "set_byId ps = fold (\<lambda>i m. AList.update (id_p (ps ! i)) i m) [0..<length ps] []"

definition parseMarkdownBundle :: "string \<Rightarrow> error + model" where
  "parseMarkdownBundle t =
     (let ps = map new_page (blocks t) in
      if ps = [] then Inl NoPagesParsed
      else
        let by_id = set_byId ps;
            rt = (case map_of by_id (Some ''home'') of Some r \<Rightarrow> r | None \<Rightarrow> 0);
            linked = fold (link_page by_id rt) [0..<length ps] ps
        in case index_pages linked [0..<length ps] of
             Inl e \<Rightarrow> Inl e
           | Inr ps' \<Rightarrow> Inr \<lparr>pages = ps', byId = by_id, root = rt, descMemo = []\<rparr>)"


section \<open>Descendant counts and the promotion of orphans\<close>

partial_function (option) rec_count :: "page list \<Rightarrow> nat list \<Rightarrow> nat option" where
  \<comment> \<open>\<^verbatim>\<open>xs.forEach(c => { n++; rec(c); })\<close> with \<^verbatim>\<open>rec(c)\<close> the same loop over the children
      of \<open>c\<close>: the number of increments, \<^const>\<open>None\<close> when the recursion does not end\<close>
  "rec_count ps xs =
     (case xs of
        [] \<Rightarrow> Some 0
      | c # cs \<Rightarrow>
          Option.bind (rec_count ps (children (ps ! c)))
            (\<lambda>a. Option.bind (rec_count ps cs) (\<lambda>b. Some (1 + a + b))))"

declare rec_count.simps [code]

definition descendants :: "model \<Rightarrow> nat \<Rightarrow> (nat \<times> model) option" where
  \<comment> \<open>the count and the model with the memo written\<close>
  "descendants m x =
     (case map_of (descMemo m) x of
        Some n \<Rightarrow> Some (n, m)
      | None \<Rightarrow>
          (case rec_count (pages m) (children (pages m ! x)) of
             None \<Rightarrow> None
           | Some n \<Rightarrow> Some (n, m\<lparr>descMemo := AList.update x n (descMemo m)\<rparr>)))"

partial_function (option) topOf :: "page list \<Rightarrow> nat \<Rightarrow> nat option" where
  \<comment> \<open>\<^verbatim>\<open>while (p.parent) p = p.parent; return p;\<close>\<close>
  "topOf ps x = (case parent (ps ! x) of None \<Rightarrow> Some x | Some q \<Rightarrow> topOf ps q)"

declare topOf.simps [code]

definition push_member :: "nat \<Rightarrow> nat \<Rightarrow> (nat \<times> nat list) list \<Rightarrow> (nat \<times> nat list) list" where
  \<comment> \<open>\<^verbatim>\<open>if (!clusters.has(top)) clusters.set(top, []); clusters.get(top).push(p);\<close>\<close>
  "push_member t x cl =
     AList.update t ((case map_of cl t of None \<Rightarrow> [] | Some ms \<Rightarrow> ms) @ [x]) cl"

fun build_clusters :: "page list \<Rightarrow> nat \<Rightarrow> nat list \<Rightarrow> (nat \<times> nat list) list
    \<Rightarrow> (nat \<times> nat list) list option" where
  "build_clusters ps rt [] cl = Some cl"
| "build_clusters ps rt (x # xs) cl =
     (case topOf ps x of
        None \<Rightarrow> None
      | Some t \<Rightarrow> if t = rt then build_clusters ps rt xs cl
                  else build_clusters ps rt xs (push_member t x cl))"

fun choose_rep :: "model \<Rightarrow> nat \<Rightarrow> nat list \<Rightarrow> (nat \<times> model) option" where
  \<comment> \<open>\<^verbatim>\<open>members.reduce((a,b) => (descendants(b) > descendants(a) ? b : a), a)\<close>\<close>
  "choose_rep m a [] = Some (a, m)"
| "choose_rep m a (b # bs) =
     (case descendants m b of
        None \<Rightarrow> None
      | Some (nb, m1) \<Rightarrow>
          (case descendants m1 a of
             None \<Rightarrow> None
           | Some (na, m2) \<Rightarrow> choose_rep m2 (if nb > na then b else a) bs))"

definition promote :: "nat \<Rightarrow> nat \<Rightarrow> model \<Rightarrow> model" where
  \<comment> \<open>\<^verbatim>\<open>rep.parent = root; rep.isSecondary = true; rep.clusterId = cid; root.children.push(rep);\<close>\<close>
  "promote rep cid m =
     (let ps = pages m;
          ps1 = ps[rep := (ps ! rep)\<lparr>parent := Some (root m), isSecondary := True,
                                     clusterId := Some cid\<rparr>];
          ps2 = ps1[root m := (ps1 ! root m)\<lparr>children := children (ps1 ! root m) @ [rep]\<rparr>]
      in m\<lparr>pages := ps2\<rparr>)"

fun attach_loop :: "(nat \<times> nat list) list \<Rightarrow> nat \<Rightarrow> model \<Rightarrow> model option" where
  \<comment> \<open>the loop over the clusters; a cluster always has a first member\<close>
  "attach_loop [] cid m = Some m"
| "attach_loop ((t, members) # cl) cid m =
     (case members of
        [] \<Rightarrow> None
      | a # _ \<Rightarrow>
          (case choose_rep m a members of
             None \<Rightarrow> None
           | Some (rep, m1) \<Rightarrow>
               if parent (pages m1 ! rep) = None
               then attach_loop cl (cid + 1) (promote rep cid m1)
               else attach_loop cl cid m1))"

definition clusters_of :: "model \<Rightarrow> (nat \<times> nat list) list option" where
  "clusters_of m = build_clusters (pages m) (root m) [0..<length (pages m)] []"

definition attachSecondaryHomes :: "model \<Rightarrow> model option" where
  \<comment> \<open>\<^const>\<open>None\<close> when the function does not return: a parent cycle\<close>
  "attachSecondaryHomes m =
     (case clusters_of m of None \<Rightarrow> None | Some cl \<Rightarrow> attach_loop cl 0 m)"

section \<open>Paths\<close>

partial_function (option) segs_loop :: "page list \<Rightarrow> nat \<Rightarrow> string option list
    \<Rightarrow> string option list option" where
  \<comment> \<open>\<^verbatim>\<open>for (let n = p; n && n.parent; n = n.parent) segs.unshift(n.id);\<close>\<close>
  "segs_loop ps x segs =
     (case parent (ps ! x) of
        None \<Rightarrow> Some segs
      | Some q \<Rightarrow> segs_loop ps q (id_p (ps ! x) # segs))"

declare segs_loop.simps [code]

definition segs_of :: "model \<Rightarrow> nat \<Rightarrow> string option list option" where
  "segs_of m x = segs_loop (pages m) x []"

fun hash_pages :: "page list \<Rightarrow> nat list \<Rightarrow> page list option" where
  "hash_pages ps [] = Some ps"
| "hash_pages ps (x # xs) =
     (case segs_loop ps x [] of
        None \<Rightarrow> None
      | Some segs \<Rightarrow>
          hash_pages (ps[x := (ps ! x)\<lparr>hash := Some (join ''#'' (map or_empty segs))\<rparr>]) xs)"

definition computeHashes :: "model \<Rightarrow> model option" where
  "computeHashes m =
     map_option (\<lambda>ps. m\<lparr>pages := ps\<rparr>) (hash_pages (pages m) [0..<length (pages m)])"

fun find_from :: "page list \<Rightarrow> nat \<Rightarrow> string option list \<Rightarrow> nat" where
  "find_from ps n [] = n"
| "find_from ps n (sid # segs) =
     (case List.find (\<lambda>k. id_p (ps ! k) = sid) (children (ps ! n)) of
        None \<Rightarrow> n
      | Some c \<Rightarrow> find_from ps c segs)"

definition find :: "model \<Rightarrow> string option list \<Rightarrow> nat" where
  \<comment> \<open>the page that a sequence of id segments resolves to\<close>
  "find m segs = find_from (pages m) (root m) segs"

section \<open>Graph data\<close>

datatype kind = Hier | Tag

record node =
  id_n :: nat
  label :: "string option"
  ref :: nat

record link =
  source :: nat
  target :: nat
  shared :: nat
  kind_l :: kind
  tier :: "nat option"

record graph =
  nodes :: "node list"
  links :: "link list"
  adj :: "(nat \<times> nat list) list"

definition set_add :: "'a \<Rightarrow> 'a list \<Rightarrow> 'a list" where
  \<comment> \<open>\<^verbatim>\<open>Set.prototype.add\<close> on a set kept in its iteration order\<close>
  "set_add x xs = (if x \<in> set xs then xs else xs @ [x])"

definition get_or_empty :: "('k \<times> 'v list) list \<Rightarrow> 'k \<Rightarrow> 'v list" where
  "get_or_empty al k = (case map_of al k of None \<Rightarrow> [] | Some v \<Rightarrow> v)"

definition touch :: "nat \<Rightarrow> nat \<Rightarrow> (nat \<times> nat list) list \<Rightarrow> (nat \<times> nat list) list" where
  "touch a b al =
     (let al1 = AList.update a (set_add b (get_or_empty al a)) al
      in AList.update b (set_add a (get_or_empty al1 b)) al1)"

definition tierOf :: "nat \<Rightarrow> nat" where
  "tierOf n = (if n < 3 then 1 else if n < 6 then 2 else if n < 11 then 3
               else if n < 21 then 4 else 5)"

definition pair_key :: "nat \<Rightarrow> nat \<Rightarrow> nat \<times> nat" where
  \<comment> \<open>the key \<^verbatim>\<open>a < b ? `${a}|${b}` : `${b}|${a}`\<close> as a pair\<close>
  "pair_key a b = (if a < b then (a, b) else (b, a))"

record gstate =
  g_links :: "link list"
  g_adj :: "(nat \<times> nat list) list"
  hierPairs :: "(nat \<times> nat) list"
  g_model :: model

fun hier_edges :: "nat list \<Rightarrow> gstate \<Rightarrow> gstate option" where
  \<comment> \<open>the loop of the hierarchical edges; \<open>p._i\<close> is the index of \<open>p\<close> by now\<close>
  "hier_edges [] g = Some g"
| "hier_edges (i # is) g =
     (let m = g_model g; pg = pages m ! i in
      case parent pg of
        None \<Rightarrow> hier_edges is g
      | Some q \<Rightarrow>
          if isSecondary pg \<and> q = root m then hier_edges is g
          else (case descendants m i of
                  None \<Rightarrow> None
                | Some (d, m') \<Rightarrow>
                    hier_edges is
                      \<lparr>g_links = g_links g @ [\<lparr>source = i, target = q, shared = 0, kind_l = Hier,
                                               tier = Some (tierOf d)\<rparr>],
                       g_adj = touch i q (g_adj g),
                       hierPairs = set_add (pair_key i q) (hierPairs g),
                       g_model = m'\<rparr>))"

definition tagToPages :: "page list \<Rightarrow> (string \<times> nat list) list" where
  "tagToPages ps =
     fold (\<lambda>i al. fold (\<lambda>t al. AList.update t (get_or_empty al t @ [i]) al) (tagsSet (ps ! i)) al)
       [0..<length ps] []"

fun pairs_of :: "nat list \<Rightarrow> (nat \<times> nat) list" where
  \<comment> \<open>the pairs \<open>(arr[x], arr[y])\<close> with \<open>x < y\<close>, in the order of the two nested loops\<close>
  "pairs_of [] = []"
| "pairs_of (i # js) = map (\<lambda>j. (i, j)) js @ pairs_of js"

definition shared_counts :: "(string \<times> nat list) list \<Rightarrow> ((nat \<times> nat) \<times> nat) list" where
  "shared_counts al =
     fold (\<lambda>ij sh. AList.update (pair_key (fst ij) (snd ij))
                     ((case map_of sh (pair_key (fst ij) (snd ij)) of None \<Rightarrow> 0 | Some c \<Rightarrow> c) + 1) sh)
       (concat (map (\<lambda>e. pairs_of (snd e)) al)) []"

definition tag_edges :: "((nat \<times> nat) \<times> nat) list \<Rightarrow> gstate \<Rightarrow> gstate" where
  "tag_edges sh g =
     fold (\<lambda>e g. if fst e \<in> set (hierPairs g) then g
                 else g\<lparr>g_links := g_links g @ [\<lparr>source = fst (fst e), target = snd (fst e),
                                                 shared = snd e, kind_l = Tag, tier = None\<rparr>],
                        g_adj := touch (fst (fst e)) (snd (fst e)) (g_adj g)\<rparr>) sh g"

definition number_pages :: "page list \<Rightarrow> page list" where
  \<comment> \<open>\<^verbatim>\<open>pages.forEach((p,i) => { p._i = i; ... })\<close>\<close>
  "number_pages ps = map (\<lambda>i. (ps ! i)\<lparr>node_i := Some i\<rparr>) [0..<length ps]"

definition buildGraphData :: "model \<Rightarrow> (graph \<times> model) option" where
  \<comment> \<open>the graph and the model as the function leaves it\<close>
  "buildGraphData m =
     (let ps = number_pages (pages m);
          ns = map (\<lambda>i. \<lparr>id_n = i, label = title (ps ! i), ref = i\<rparr>) [0..<length ps];
          m1 = m\<lparr>pages := ps\<rparr>
      in case hier_edges [0..<length ps] \<lparr>g_links = [], g_adj = [], hierPairs = [], g_model = m1\<rparr> of
           None \<Rightarrow> None
         | Some g \<Rightarrow>
             let g' = tag_edges (shared_counts (tagToPages ps)) g
             in Some (\<lparr>nodes = ns, links = g_links g', adj = g_adj g'\<rparr>, g_model g'))"

section \<open>The search on a store of objects\<close>

text \<open>
  The search once more, now with the objects it works on in one store, so that what it
  writes is explicit. An address is an index into the store. The page objects stand at the
  addresses \<open>0..<n\<close>, in the order of the array \<^verbatim>\<open>pages\<close>; the arrays that the search
  creates (\<^verbatim>\<open>scored\<close>, and one \<^verbatim>\<open>matchedSecs\<close> per qualifying page) are allocated behind
  them. \<^verbatim>\<open>push\<close> and \<^verbatim>\<open>sort\<close> write the array they are called on, in place. An element of
  \<^verbatim>\<open>scored\<close> holds the address of its page, the score and the address of its
  \<^verbatim>\<open>matchedSecs\<close>.
\<close>

datatype obj =
    PageObj page
  | MatchedArr "(sect \<times> nat) list"
  | ScoredArr "(nat \<times> nat \<times> nat) list"

definition alloc :: "obj \<Rightarrow> obj list \<Rightarrow> nat \<times> obj list" where
  "alloc ob st = (length st, st @ [ob])"

definition push_matched :: "nat \<Rightarrow> sect \<times> nat \<Rightarrow> obj list \<Rightarrow> obj list" where
  "push_matched a e st =
     (case st ! a of MatchedArr xs \<Rightarrow> st[a := MatchedArr (xs @ [e])] | _ \<Rightarrow> st)"

definition sort_matched :: "nat \<Rightarrow> obj list \<Rightarrow> obj list" where
  \<comment> \<open>\<^verbatim>\<open>matchedSecs.sort((a, b) => b.s - a.s)\<close>\<close>
  "sort_matched a st =
     (case st ! a of
        MatchedArr xs \<Rightarrow> st[a := MatchedArr (sort_cmp (\<lambda>x y. int (snd y) - int (snd x)) xs)]
      | _ \<Rightarrow> st)"

definition read_matched :: "nat \<Rightarrow> obj list \<Rightarrow> (sect \<times> nat) list" where
  "read_matched a st = (case st ! a of MatchedArr xs \<Rightarrow> xs | _ \<Rightarrow> [])"

definition push_scored :: "nat \<Rightarrow> nat \<times> nat \<times> nat \<Rightarrow> obj list \<Rightarrow> obj list" where
  "push_scored a e st =
     (case st ! a of ScoredArr xs \<Rightarrow> st[a := ScoredArr (xs @ [e])] | _ \<Rightarrow> st)"

definition title_at :: "obj list \<Rightarrow> nat \<Rightarrow> string" where
  "title_at st i = (case st ! i of PageObj pg \<Rightarrow> title_str pg | _ \<Rightarrow> [])"

definition entry_cmp :: "obj list \<Rightarrow> nat \<times> nat \<times> nat \<Rightarrow> nat \<times> nat \<times> nat \<Rightarrow> int" where
  \<comment> \<open>\<^verbatim>\<open>b.score - a.score || a.p.title.localeCompare(b.p.title)\<close>\<close>
  "entry_cmp st x y =
     (if int (fst (snd y)) - int (fst (snd x)) \<noteq> 0 then int (fst (snd y)) - int (fst (snd x))
      else localeCompare (title_at st (fst x)) (title_at st (fst y)))"

definition sort_scored :: "nat \<Rightarrow> obj list \<Rightarrow> obj list" where
  "sort_scored a st =
     (case st ! a of ScoredArr xs \<Rightarrow> st[a := ScoredArr (sort_cmp (entry_cmp st) xs)] | _ \<Rightarrow> st)"

definition read_scored :: "nat \<Rightarrow> obj list \<Rightarrow> scored list" where
  \<comment> \<open>the array \<^verbatim>\<open>scored\<close> as the rendering loop reads it\<close>
  "read_scored a st =
     (case st ! a of
        ScoredArr xs \<Rightarrow>
          map (\<lambda>e. \<lparr>ref_p = fst e, score = fst (snd e),
                     matchedSecs = read_matched (snd (snd e)) st\<rparr>) xs
      | _ \<Rightarrow> [])"

fun match_loop :: "string list \<Rightarrow> string option \<Rightarrow> sect list \<Rightarrow> nat \<Rightarrow> obj list \<Rightarrow> obj list" where
  \<comment> \<open>the loop over the sections of a page, pushing onto the array at \<open>a\<close>\<close>
  "match_loop tokens phrase [] a st = st"
| "match_loop tokens phrase (sec # secs) a st =
     (if \<not> sec_qualifies tokens sec then match_loop tokens phrase secs a st
      else match_loop tokens phrase secs a (push_matched a (sec, sec_score tokens phrase sec) st))"

definition visit_page :: "string list \<Rightarrow> string option \<Rightarrow> nat \<Rightarrow> nat \<Rightarrow> obj list
    \<Rightarrow> error option \<times> obj list" where
  \<comment> \<open>one round of the loop over the pages, for the page at address \<open>i\<close>; an error leaves
      the store as it is when it is raised\<close>
  "visit_page tokens phrase sc_addr i st =
     (case st ! i of
        PageObj pg \<Rightarrow>
          if \<not> page_qualifies tokens pg then (None, st)
          else (case title pg of
                  None \<Rightarrow> (Some TypeError, st)
                | Some t \<Rightarrow>
                    let titleL = toLowerCase t;
                        tagsL = toLowerCase (join '' '' (tagsSet pg));
                        bodyL = toLowerCase (content pg);
                        sc = fold (\<lambda>tok sc. sc + token_score tok titleL tagsL bodyL) tokens 0;
                        sc = sc + phrase_bonus phrase titleL bodyL;
                        (a, st1) = alloc (MatchedArr []) st;
                        st2 = match_loop tokens phrase (sections pg) a st1;
                        st3 = sort_matched a st2;
                        sc = sc + min W_secCountCap (length (read_matched a st3))
                    in (None, push_scored sc_addr (i, sc, a) st3))
      | _ \<Rightarrow> (Some TypeError, st))"

fun visit_pages :: "string list \<Rightarrow> string option \<Rightarrow> nat \<Rightarrow> nat list \<Rightarrow> obj list
    \<Rightarrow> error option \<times> obj list" where
  "visit_pages tokens phrase sc_addr [] st = (None, st)"
| "visit_pages tokens phrase sc_addr (i # is) st =
     (case visit_page tokens phrase sc_addr i st of
        (Some e, st') \<Rightarrow> (Some e, st')
      | (None, st') \<Rightarrow> visit_pages tokens phrase sc_addr is st')"

definition search_store :: "string \<Rightarrow> nat \<Rightarrow> obj list \<Rightarrow> (error + scored list option) \<times> obj list" where
  \<comment> \<open>\<^verbatim>\<open>search(q)\<close> on a store whose first \<open>n\<close> objects are the pages: the result and the
      store as the search leaves it\<close>
  "search_store q n st =
     (let val = toLowerCase (trim q) in
      if val = [] then (Inr None, st)
      else
        let tokens = tokenize val; phrase = phrase_of tokens val;
            (sc_addr, st1) = alloc (ScoredArr []) st
        in case visit_pages tokens phrase sc_addr [0..<n] st1 of
             (Some e, st2) \<Rightarrow> (Inl e, st2)
           | (None, st2) \<Rightarrow>
               let st3 = sort_scored sc_addr st2
               in (Inr (Some (read_scored sc_addr st3)), st3))"

definition store_of :: "page list \<Rightarrow> obj list" where
  \<comment> \<open>the store that holds the pages of a model and nothing else\<close>
  "store_of ps = map PageObj ps"

section \<open>Example inputs\<close>

definition page0 :: page where
  "page0 = \<lparr>id_p = None, title = None, parent_raw = None, tags = None, content = [],
     parent = None, children = [], tagsSet = [], searchStr = [], sections = [],
     isSecondary = False, clusterId = None, hash = None, node_i = None\<rparr>"

definition sec_ex :: "string \<Rightarrow> string \<Rightarrow> sect" where
  "sec_ex h b = \<lparr>id_s = ''1'', txt_s = h, bodyStart = 0, body = b, search_s = toLowerCase (h @ '' '' @ b)\<rparr>"

definition page_five :: page where
  \<comment> \<open>a page with five headings\<close>
  "page_five = page0\<lparr>id_p := Some ''home'', title := Some ''Home'',
     content := ''# a'' @ [CHR 0x0A] @ ''# b'' @ [CHR 0x0A] @ ''# c'' @ [CHR 0x0A] @ ''# d''
                @ [CHR 0x0A] @ ''# e'',
     searchStr := ''home  # a'' @ [CHR 0x0A] @ ''# b'' @ [CHR 0x0A] @ ''# c'' @ [CHR 0x0A] @ ''# d''
                @ [CHR 0x0A] @ ''# e'',
     sections := [sec_ex ''a'' [], sec_ex ''b'' [], sec_ex ''c'' [], sec_ex ''d'' [], sec_ex ''e'' []]\<rparr>"

section \<open>Notions used in the statements\<close>

definition indexed :: "page \<Rightarrow> bool" where
  \<comment> \<open>the search string of the page is the one the parser computes from its fields\<close>
  "indexed pg = (searchStr pg = toLowerCase (title_str pg @ '' '' @ join '' '' (tagsSet pg)
                                               @ '' '' @ content pg))"

definition with_title :: "page \<Rightarrow> string \<Rightarrow> page" where
  \<comment> \<open>the same page under another title\<close>
  "with_title pg t = pg\<lparr>title := Some t,
     searchStr := toLowerCase (t @ '' '' @ join '' '' (tagsSet pg) @ '' '' @ content pg)\<rparr>"

definition ranking :: "error + scored list option \<Rightarrow> (nat \<times> nat) list option" where
  \<comment> \<open>the pages of a result in their order, each with its total score\<close>
  "ranking r = (case r of Inr (Some rs) \<Rightarrow> Some (map (\<lambda>e. (ref_p e, score e)) rs) | _ \<Rightarrow> None)"

definition nl :: string where
  "nl = [CHR 0x0A]"

definition bundle_tag_substring :: string where
  \<comment> \<open>page 0 has the tag foo; page 1 has four headings with the word foobar\<close>
  \<open>bundle_tag_substring =
     ''<!--id:"home" title:"A" tags:"foo"-->text<!--id:"b" title:"B" parent:"home"-->''
     @ ''# foobar'' @ nl @ ''# foobar'' @ nl @ ''# foobar'' @ nl @ ''# foobar''\<close>

definition bundle_tag_substring2 :: string where
  \<comment> \<open>page 0 has the tag foo; page 1 has two headings with the word foobar\<close>
  \<open>bundle_tag_substring2 =
     ''<!--id:"home" title:"A" tags:"foo"-->text<!--id:"b" title:"B" parent:"home"-->''
     @ ''# foobar'' @ nl @ ''# foobar''\<close>

definition pages_of :: "string \<Rightarrow> page list" where
  \<comment> \<open>the pages parsed from a bundle, none when the parser raises\<close>
  "pages_of t = (case parseMarkdownBundle t of Inl e \<Rightarrow> [] | Inr m \<Rightarrow> pages m)"

definition bundle_single_letters :: string where
  \<comment> \<open>page 0 has the title "a b"; page 1 has a and b as separate words of its body\<close>
  \<open>bundle_single_letters =
     ''<!--id:"home" title:"a b"-->x<!--id:"p2" title:"T" parent:"home"--># a x b''\<close>

definition bundle_phrase :: string where
  \<comment> \<open>page 0 has the title "Foo Bar"; page 1 has foo and bar as separate words of its body\<close>
  \<open>bundle_phrase =
     ''<!--id:"home" title:"Foo Bar"-->x<!--id:"p2" title:"T" parent:"home"--># foo x bar''\<close>

definition bundle_untitled :: string where
  \<comment> \<open>a page whose metadata block gives no title\<close>
  \<open>bundle_untitled = ''<!--id:"home"-->x''\<close>

definition bundle_word :: string where
  \<open>bundle_word = ''<!--id:"home" title:"foo"-->x''\<close>

definition bundle_doubled :: string where
  \<open>bundle_doubled = ''<!--id:"home" title:"foofoo"-->x''\<close>

definition bundle_three_fields :: string where
  \<comment> \<open>a page with the word foo as its title, its only tag and its body\<close>
  \<open>bundle_three_fields = ''<!--id:"home" title:"foo" tags:"foo"-->foo''\<close>

definition bundle_late_tag :: string where
  \<open>bundle_late_tag = ''<!--id:"home" title:"bar foo" tags:"xxx,bar"-->zzzzzzz bar''\<close>

definition bundle_late_tag2 :: string where
  \<open>bundle_late_tag2 = ''<!--id:"home" title:"foo bar foo" tags:"xxx,bar"-->zzzzzzz bar''\<close>

definition load :: "string \<Rightarrow> model option" where
  \<comment> \<open>the start of the runtime: \<^verbatim>\<open>parseMarkdownBundle(txt); attachSecondaryHomes();
      computeHashes();\<close>, \<^const>\<open>None\<close> when one of them does not return a model\<close>
  "load t =
     (case parseMarkdownBundle t of
        Inl e \<Rightarrow> None
      | Inr m \<Rightarrow> Option.bind (attachSecondaryHomes m) computeHashes)"

definition bundle_fenced :: string where
  \<comment> \<open>a page whose content is a fenced block with a heading marker on its first line\<close>
  \<open>bundle_fenced = ''<!--id:"home" title:"T"-->```'' @ nl @ ''# not a heading'' @ nl @ ''```''\<close>

definition bundle_empty_heading :: string where
  \<comment> \<open>a page with an empty heading: a marker and one space, in the middle of the content\<close>
  \<open>bundle_empty_heading = ''<!--id:"home" title:"T"-->intro'' @ nl @ ''# '' @ nl @ ''more''\<close>

definition bundle_wiki :: string where
  \<comment> \<open>the example of the specification, with a child under the orphan\<close>
  \<open>bundle_wiki =
     ''<!--id:"home" title:"Home"-->h<!--id:"alpha" title:"Alpha" parent:"home" tags:"x,y"-->a''
     @ ''<!--id:"beta" title:"Beta" parent:"home" tags:"y"-->b''
     @ ''<!--id:"gamma" title:"Gamma" parent:"missing"-->g''
     @ ''<!--id:"delta" title:"Delta" parent:"gamma" tags:"x"-->d''\<close>

definition model0 :: model where
  "model0 = \<lparr>pages = [], byId = [], root = 0, descMemo = []\<rparr>"

definition model_of :: "string \<Rightarrow> model" where
  \<comment> \<open>the model loaded from a bundle, the empty one when loading fails\<close>
  "model_of t = (case load t of Some m \<Rightarrow> m | None \<Rightarrow> model0)"

definition graph_model_of :: "model \<Rightarrow> model" where
  \<comment> \<open>the model as \<^const>\<open>buildGraphData\<close> leaves it\<close>
  "graph_model_of m = (case buildGraphData m of Some (gr, m') \<Rightarrow> m' | None \<Rightarrow> m)"

fun is_chain :: "page list \<Rightarrow> nat list \<Rightarrow> bool" where
  \<comment> \<open>a page, its parent, the parent of that, up to a page without a parent\<close>
  "is_chain ps [] = False"
| "is_chain ps [t] = (parent (ps ! t) = None)"
| "is_chain ps (x # y # c) = (parent (ps ! x) = Some y \<and> is_chain ps (y # c))"

definition wf_links :: "page list \<Rightarrow> nat \<Rightarrow> bool" where
  \<comment> \<open>parents and children agree: a page is listed once among the children of its parent
      and nowhere else, and the root has no parent\<close>
  "wf_links ps rt =
     (rt < length ps \<and> parent (ps ! rt) = None
      \<and> (\<forall>x < length ps. \<forall>q. parent (ps ! x) = Some q \<longrightarrow>
            q < length ps \<and> x \<in> set (children (ps ! q)))
      \<and> (\<forall>q < length ps. distinct (children (ps ! q))
            \<and> (\<forall>c \<in> set (children (ps ! q)). c < length ps \<and> parent (ps ! c) = Some q)))"

definition keeps :: "nat \<Rightarrow> obj list \<Rightarrow> obj list \<Rightarrow> bool" where
  \<comment> \<open>the second store has the first \<open>n\<close> objects of the first, unchanged\<close>
  "keeps n st st' = (length st \<le> length st' \<and> take n st' = take n st)"



inductive reach :: "page list \<Rightarrow> nat \<Rightarrow> nat \<Rightarrow> bool" for ps :: "page list" and r :: nat where
  reach_self: "reach ps r r"
| reach_child: "reach ps r q \<Longrightarrow> x \<in> set (children (ps ! q)) \<Longrightarrow> reach ps r x"

definition promote_pages :: "nat \<Rightarrow> nat \<Rightarrow> nat \<Rightarrow> page list \<Rightarrow> page list" where
  \<comment> \<open>the pages after \<^const>\<open>promote\<close>\<close>
  "promote_pages rt rep cid ps =
     (let ps1 = ps[rep := (ps ! rep)\<lparr>parent := Some rt, isSecondary := True, clusterId := Some cid\<rparr>]
      in ps1[rt := (ps1 ! rt)\<lparr>children := children (ps1 ! rt) @ [rep]\<rparr>])"

fun promos :: "nat \<Rightarrow> nat list \<Rightarrow> nat \<Rightarrow> page list \<Rightarrow> page list" where
  \<comment> \<open>the pages after the promotion of the pages \<open>ts\<close> in turn, numbered from \<open>cid\<close>\<close>
  "promos rt [] cid ps = ps"
| "promos rt (t # ts) cid ps = promos rt ts (cid + 1) (promote_pages rt t cid ps)"









section \<open>Properties of the search\<close>

lemma mset_insert_cmp: "mset (insert_cmp c x ys) = add_mset x (mset ys)"
  by (induction ys) auto

lemma mset_sort_cmp: "mset (sort_cmp c xs) = mset xs"
  by (induction xs) (auto simp: sort_cmp_def mset_insert_cmp)

lemma length_sort_cmp: "length (sort_cmp c xs) = length xs"
  using mset_sort_cmp [of c xs] by (metis size_mset)

lemma set_sort_cmp: "set (sort_cmp c xs) = set xs"
  using mset_sort_cmp [of c xs] by (metis set_mset_mset)

lemma page_qualifies_Nil: "page_qualifies [] pg"
  by (simp add: page_qualifies_def)

lemma length_match_sections_Nil: "length (match_sections [] phrase secs) = length secs"
  by (simp add: match_sections_def length_sort_cmp sec_qualifies_def)

lemma page_score_Nil:
  "title pg = Some t \<Longrightarrow>
   \<exists>ms. page_score [] None pg = Inr (min W_secCountCap (length (sections pg)), ms)"
  by (simp add: page_score_def phrase_bonus_def length_match_sections_Nil Let_def)

lemma score_pages_Nil:
  "\<forall>i \<in> set is. title (ps ! i) \<noteq> None \<Longrightarrow>
   \<exists>rs. score_pages [] None ps is = Inr rs \<and> map ref_p rs = is
     \<and> (\<forall>r \<in> set rs. score r = min W_secCountCap (length (sections (ps ! ref_p r))))"
proof (induction "is")
  case Nil
  then show ?case by simp
next
  case (Cons i "is")
  from Cons.prems obtain t where t: "title (ps ! i) = Some t" by auto
  from page_score_Nil [OF t] obtain ms where
    ms: "page_score [] None (ps ! i) = Inr (min W_secCountCap (length (sections (ps ! i))), ms)"
    by blast
  from Cons obtain rs where rs: "score_pages [] None ps is = Inr rs" "map ref_p rs = is"
    "\<forall>r \<in> set rs. score r = min W_secCountCap (length (sections (ps ! ref_p r)))"
    by auto
  show ?case using ms rs by (simp add: page_qualifies_Nil)
qed

text \<open>
  C10, amended. A query whose trimmed form is not empty and whose whitespace-separated
  pieces are all shorter than two characters leaves no token. On a collection whose pages
  all have a title the search then lists every page, each once, and the total score of a
  page is the number of its sections capped at 4. (With no token every page passes the
  prefilter, and the search reads the title of every page that does: a page without a title
  makes it raise, see \<open>search_raises_without_title\<close>.)
\<close>

theorem search_all_tokens_discarded:
  assumes "trim q \<noteq> []"
    and "\<forall>t \<in> set (split_ws (toLowerCase (trim q))). length t < 2"
    and "\<forall>pg \<in> set ps. title pg \<noteq> None"
  shows "\<exists>rs. search q ps = Inr (Some rs)
           \<and> mset (map ref_p rs) = mset [0..<length ps]
           \<and> (\<forall>r \<in> set rs. score r = min 4 (length (sections (ps ! ref_p r))))"
proof -
  have tok: "tokenize (toLowerCase (trim q)) = []"
    using assms(2) by (auto simp: tokenize_def filter_empty_conv)
  have ne: "toLowerCase (trim q) \<noteq> []"
    using assms(1) by (simp add: toLowerCase_def)
  have "\<forall>i \<in> set [0..<length ps]. title (ps ! i) \<noteq> None"
    using assms(3) by simp
  from score_pages_Nil [OF this] obtain rs where
    rs: "score_pages [] None ps [0..<length ps] = Inr rs" "map ref_p rs = [0..<length ps]"
      "\<forall>r \<in> set rs. score r = min W_secCountCap (length (sections (ps ! ref_p r)))"
    by blast
  let ?out = "sort_cmp (rank_cmp ps) rs"
  have "search q ps = Inr (Some ?out)"
    using ne tok rs(1) by (simp add: search_def Let_def phrase_of_def)
  moreover have "mset (map ref_p ?out) = mset [0..<length ps]"
    using rs(2) mset_sort_cmp [of "rank_cmp ps" rs] by (metis mset_map)
  moreover have "\<forall>r \<in> set ?out. score r = min 4 (length (sections (ps ! ref_p r)))"
    using rs(3) by (simp add: set_sort_cmp W_secCountCap_def)
  ultimately show ?thesis by blast
qed

text \<open>
  A metadata block need not give a title. For the query \<open>a\<close>, whose only piece is
  discarded, the page parsed from such a block passes the prefilter and the search raises a
  TypeError at \<^verbatim>\<open>p.title.toLowerCase()\<close>: it does not list the page.
\<close>

theorem search_raises_without_title:
  "trim ''a'' \<noteq> []
   \<and> list_all (\<lambda>t. length t < 2) (split_ws (toLowerCase (trim ''a'')))
   \<and> length (pages_of bundle_untitled) = 1
   \<and> title (pages_of bundle_untitled ! 0) = None
   \<and> search ''a'' (pages_of bundle_untitled) = Inl TypeError"
  by code_simp

theorem search_all_tokens_discarded_witness:
  "trim '' a b '' \<noteq> []
   \<and> list_all (\<lambda>t. length t < 2) (split_ws (toLowerCase (trim '' a b '')))
   \<and> list_all (\<lambda>pg. title pg \<noteq> None) [page_five]
   \<and> (\<exists>rs. search '' a b '' [page_five] = Inr (Some rs)
           \<and> map ref_p rs = [0] \<and> map score rs = [4])"
proof -
  have h1: "trim '' a b '' \<noteq> []" by code_simp
  have h2: "\<forall>t \<in> set (split_ws (toLowerCase (trim '' a b ''))). length t < 2" by code_simp
  have h3: "\<forall>pg \<in> set [page_five]. title pg \<noteq> None" by (simp add: page_five_def)
  from search_all_tokens_discarded [OF h1 h2 h3] obtain rs where
    rs: "search '' a b '' [page_five] = Inr (Some rs)" "mset (map ref_p rs) = mset [0..<length [page_five]]"
      "\<forall>r \<in> set rs. score r = min 4 (length (sections ([page_five] ! ref_p r)))"
    by blast
  from rs(2) have "mset (map ref_p rs) = {#0#}" by simp
  then have m: "map ref_p rs = [0]" by (metis mset_single_iff_right mset.simps(1) mset.simps(2) mset_eq_setD)
  then obtain r where r: "rs = [r]" "ref_p r = 0" by auto
  have "score r = 4" using rs(3) r by (simp add: page_five_def)
  then show ?thesis using h1 h2 h3 rs(1) r by (auto simp: list_all_iff)
qed

lemma regex_exec_None: "\<not> whole_word tok s \<Longrightarrow> regex_exec tok s li = None"
  by (auto simp: regex_exec_def whole_word_def find_None_iff)

lemma test_no_match: "\<not> whole_word tok s \<Longrightarrow> test tok s li = (False, 0)"
  by (simp add: test_def regex_exec_None)

lemma regex_exec_0: "whole_word tok s \<Longrightarrow> \<exists>i. regex_exec tok s 0 = Some i"
  by (cases "regex_exec tok s 0") (auto simp: regex_exec_def whole_word_def find_None_iff)

lemma test_match_0: "whole_word tok s \<Longrightarrow> \<exists>l. test tok s 0 = (True, l)"
  using regex_exec_0 [of tok s] by (auto simp: test_def)

lemma test_cases: "test tok s li = (False, 0) \<or> (\<exists>l. test tok s li = (True, l))"
  by (cases "regex_exec tok s li") (auto simp: test_def)

lemma token_score_title:
  "token_score tok titleL tagsL bodyL \<ge> W_title \<longleftrightarrow> whole_word tok titleL"
proof (cases "whole_word tok titleL")
  case True
  then obtain l where "test tok titleL 0 = (True, l)" using test_match_0 by blast
  then show ?thesis using True by (simp add: token_score_def split: prod.splits)
next
  case False
  then have "test tok titleL 0 = (False, 0)" by (rule test_no_match)
  then have "token_score tok titleL tagsL bodyL \<le> W_tag + W_body"
    by (simp add: token_score_def split: prod.splits)
  then show ?thesis using False by (simp add: W_title_def W_tag_def W_body_def)
qed

lemma token_score_le: "token_score tok titleL tagsL bodyL \<le> W_title + W_tag + W_body"
  by (simp add: token_score_def split: prod.splits)

lemma token_score_tag_only:
  assumes "\<not> whole_word tok titleL" "whole_word tok tagsL"
  shows "W_tag \<le> token_score tok titleL tagsL bodyL"
proof -
  have "test tok titleL 0 = (False, 0)" using assms(1) by (rule test_no_match)
  moreover obtain l where "test tok tagsL 0 = (True, l)" using assms(2) test_match_0 by blast
  ultimately show ?thesis by (simp add: token_score_def split: prod.splits)
qed

lemma token_score_none:
  assumes "\<not> whole_word tok titleL" "\<not> whole_word tok tagsL" "\<not> whole_word tok bodyL"
  shows "token_score tok titleL tagsL bodyL = 0"
  using assms by (simp add: token_score_def test_no_match)

lemma token_score_body_only:
  assumes "\<not> whole_word tok titleL" "\<not> whole_word tok tagsL"
  shows "token_score tok titleL tagsL bodyL \<le> W_body"
  using assms by (simp add: token_score_def test_no_match split: prod.splits)

lemma fold_add_sum: "fold (\<lambda>x (acc::nat). acc + f x) xs a = a + sum_list (map f xs)"
  by (induction xs arbitrary: a) auto

lemma set_insert_cmp: "set (insert_cmp c x ys) = insert x (set ys)"
  by (induction ys) auto

lemma rank_cmp_le: "rank_cmp ps x y \<le> 0 \<Longrightarrow> score y \<le> score x"
  by (simp add: rank_cmp_def split: if_splits)

lemma rank_cmp_gt: "\<not> rank_cmp ps x y \<le> 0 \<Longrightarrow> score x \<le> score y"
  by (simp add: rank_cmp_def split: if_splits)

lemma sorted_insert_rank:
  "sorted_wrt (\<lambda>a b. score b \<le> score a) ys \<Longrightarrow>
   sorted_wrt (\<lambda>a b. score b \<le> score a) (insert_cmp (rank_cmp ps) x ys)"
proof (induction ys)
  case Nil
  then show ?case by simp
next
  case (Cons y ys)
  show ?case
  proof (cases "rank_cmp ps x y \<le> 0")
    case True
    then have "score y \<le> score x" by (rule rank_cmp_le)
    moreover have "\<forall>z \<in> set ys. score z \<le> score y" using Cons.prems by simp
    ultimately show ?thesis using True Cons.prems by force
  next
    case False
    then have "score x \<le> score y" by (rule rank_cmp_gt)
    then show ?thesis using False Cons by (auto simp: set_insert_cmp)
  qed
qed

lemma sorted_sort_rank: "sorted_wrt (\<lambda>a b. score b \<le> score a) (sort_cmp (rank_cmp ps) xs)"
  by (induction xs) (simp_all add: sort_cmp_def sorted_insert_rank)

lemma score_pages_entries:
  "score_pages tokens phrase ps is = Inr rs \<Longrightarrow>
   map ref_p rs = filter (\<lambda>i. page_qualifies tokens (ps ! i)) is
   \<and> (\<forall>r \<in> set rs. page_score tokens phrase (ps ! ref_p r) = Inr (score r, matchedSecs r))"
proof (induction "is" arbitrary: rs)
  case Nil
  then show ?case by simp
next
  case (Cons i "is")
  show ?case
  proof (cases "page_qualifies tokens (ps ! i)")
    case False
    then show ?thesis using Cons by simp
  next
    case True
    then obtain sc ms rest where
      a: "page_score tokens phrase (ps ! i) = Inr (sc, ms)"
      and b: "score_pages tokens phrase ps is = Inr rest"
      and c: "rs = \<lparr>ref_p = i, score = sc, matchedSecs = ms\<rparr> # rest"
      using Cons.prems by (auto split: sum.splits)
    from Cons.IH [OF b] show ?thesis using True a c by simp
  qed
qed

lemma page_score_titled: "title pg = Some t \<Longrightarrow> \<exists>sc ms. page_score tokens phrase pg = Inr (sc, ms)"
  by (simp add: page_score_def Let_def)

lemma score_pages_titled:
  "\<forall>i \<in> set is. page_qualifies tokens (ps ! i) \<longrightarrow> title (ps ! i) \<noteq> None \<Longrightarrow>
   \<exists>rs. score_pages tokens phrase ps is = Inr rs"
proof (induction "is")
  case Nil
  then show ?case by simp
next
  case (Cons i "is")
  then obtain rs where rs: "score_pages tokens phrase ps is = Inr rs" by auto
  show ?case
  proof (cases "page_qualifies tokens (ps ! i)")
    case False
    then show ?thesis using rs by simp
  next
    case True
    then obtain t where "title (ps ! i) = Some t" using Cons.prems by auto
    from page_score_titled [OF this] obtain sc ms where
      "page_score tokens phrase (ps ! i) = Inr (sc, ms)" by blast
    then show ?thesis using rs True by simp
  qed
qed

text \<open>The ranking: a qualifying page with a higher total stands before one with a lower total.\<close>

lemma search_ranks_by_score:
  assumes val: "toLowerCase (trim q) = val" "val \<noteq> []"
    and toks: "tokens = tokenize val" "phrase = phrase_of tokens val"
    and titled: "\<forall>pg \<in> set ps. page_qualifies tokens pg \<longrightarrow> title pg \<noteq> None"
    and a: "a < length ps" "page_qualifies tokens (ps ! a)"
           "page_score tokens phrase (ps ! a) = Inr (sa, ma)"
    and b: "b < length ps" "page_qualifies tokens (ps ! b)"
           "page_score tokens phrase (ps ! b) = Inr (sb, mb)"
    and lt: "sb < sa"
  shows "\<exists>rs i j. search q ps = Inr (Some rs) \<and> i < j \<and> j < length rs
           \<and> ref_p (rs ! i) = a \<and> score (rs ! i) = sa
           \<and> ref_p (rs ! j) = b \<and> score (rs ! j) = sb"
proof -
  have "\<forall>i \<in> set [0..<length ps]. page_qualifies tokens (ps ! i) \<longrightarrow> title (ps ! i) \<noteq> None"
    using titled by simp
  from score_pages_titled [OF this] obtain rs0 where
    rs0: "score_pages tokens phrase ps [0..<length ps] = Inr rs0" by blast
  let ?rs = "sort_cmp (rank_cmp ps) rs0"
  have out: "search q ps = Inr (Some ?rs)"
    using val toks rs0 by (simp add: search_def Let_def)
  from score_pages_entries [OF rs0] have
    refs: "map ref_p rs0 = filter (\<lambda>i. page_qualifies tokens (ps ! i)) [0..<length ps]"
    and sc: "\<forall>r \<in> set rs0. page_score tokens phrase (ps ! ref_p r) = Inr (score r, matchedSecs r)"
    by simp_all
  have "a \<in> set (map ref_p rs0)" using a(1,2) by (simp add: refs)
  then obtain ra where ra: "ra \<in> set rs0" "ref_p ra = a" by auto
  have "b \<in> set (map ref_p rs0)" using b(1,2) by (simp add: refs)
  then obtain rb where rb: "rb \<in> set rs0" "ref_p rb = b" by auto
  have sa: "score ra = sa" using sc ra a(3) by auto
  have sb: "score rb = sb" using sc rb b(3) by auto
  from ra(1) have "ra \<in> set ?rs" by (simp add: set_sort_cmp)
  then obtain i where i: "i < length ?rs" "?rs ! i = ra" by (auto simp: in_set_conv_nth)
  from rb(1) have "rb \<in> set ?rs" by (simp add: set_sort_cmp)
  then obtain j where j: "j < length ?rs" "?rs ! j = rb" by (auto simp: in_set_conv_nth)
  have "i < j"
  proof (rule ccontr)
    assume "\<not> i < j"
    then consider "i = j" | "j < i" by linarith
    then show False
    proof cases
      case 1
      then show ?thesis using i j sa sb lt by simp
    next
      case 2
      from sorted_sort_rank [of ps rs0] 2 i(1)
      have "score (?rs ! i) \<le> score (?rs ! j)"
        by (simp add: sorted_wrt_iff_nth_less)
      then show ?thesis using i j sa sb lt by simp
    qed
  qed
  then show ?thesis using out i j ra rb sa sb by blast
qed

lemma startsWith_iff: "startsWith s t \<longleftrightarrow> (\<exists>b. s = t @ b)"
  by (induction s t rule: startsWith.induct) auto

lemma includes_s_iff: "includes_s s t \<longleftrightarrow> (\<exists>a b. s = a @ t @ b)"
proof (induction s)
  case Nil
  then show ?case by auto
next
  case (Cons c s)
  show ?case
  proof
    assume "includes_s (c # s) t"
    then consider "startsWith (c # s) t" | "includes_s s t" by auto
    then show "\<exists>a b. c # s = a @ t @ b"
    proof cases
      case 1
      then obtain b where "c # s = t @ b" by (auto simp: startsWith_iff)
      then have "c # s = [] @ t @ b" by simp
      then show ?thesis by blast
    next
      case 2
      then obtain a b where "s = a @ t @ b" using Cons.IH by blast
      then have "c # s = (c # a) @ t @ b" by simp
      then show ?thesis by blast
    qed
  next
    assume "\<exists>a b. c # s = a @ t @ b"
    then obtain a b where ab: "c # s = a @ t @ b" by blast
    show "includes_s (c # s) t"
    proof (cases a)
      case Nil
      then have "startsWith (c # s) t" using ab by (auto simp: startsWith_iff)
      then show ?thesis by simp
    next
      case (Cons d a')
      then have "s = a' @ t @ b" using ab by simp
      then have "includes_s s t" using Cons.IH by blast
      then show ?thesis by simp
    qed
  qed
qed

lemma includes_s_append: "includes_s x t \<or> includes_s y t \<Longrightarrow> includes_s (x @ y) t"
proof (erule disjE)
  assume "includes_s x t"
  then obtain a b where "x = a @ t @ b" by (auto simp: includes_s_iff)
  then have "x @ y = a @ t @ (b @ y)" by simp
  then show ?thesis unfolding includes_s_iff by blast
next
  assume "includes_s y t"
  then obtain a b where "y = a @ t @ b" by (auto simp: includes_s_iff)
  then have "x @ y = (x @ a) @ t @ b" by simp
  then show ?thesis unfolding includes_s_iff by blast
qed

lemma match_at_includes: "match_at tok s i \<Longrightarrow> includes_s s tok"
proof -
  assume "match_at tok s i"
  then have "take (length tok) (drop i s) = tok" by (simp add: match_at_def)
  then have "s = take i s @ tok @ drop (length tok) (drop i s)"
    by (metis append_take_drop_id)
  then show ?thesis unfolding includes_s_iff by blast
qed

lemma whole_word_includes: "whole_word tok s \<Longrightarrow> includes_s s tok"
  by (auto simp: whole_word_def dest: match_at_includes)

lemma toLowerCase_append: "toLowerCase (a @ b) = toLowerCase a @ toLowerCase b"
  by (simp add: toLowerCase_def)

lemma toLowerCase_simps:
  "toLowerCase [] = []" "toLowerCase (c # s) = lower_char c # toLowerCase s"
  by (simp_all add: toLowerCase_def)

lemma page_score_single:
  assumes "title pg = Some t"
  shows "page_score [tok] None pg =
     Inr (token_score tok (toLowerCase t) (toLowerCase (join '' '' (tagsSet pg)))
            (toLowerCase (content pg))
          + min W_secCountCap (length (filter (sec_qualifies [tok]) (sections pg))),
          match_sections [tok] None (sections pg))"
  using assms
  by (simp add: page_score_def Let_def phrase_bonus_def match_sections_def length_sort_cmp)

lemma tokenize_nonempty: "tokenize val = t # ts \<Longrightarrow> val \<noteq> []"
  by (auto simp: tokenize_def split_ws.simps [of "[]"])

text \<open>
  C7, amended. For a query of one token, in a collection where every page whose search
  string contains the token has a title (the search reads the title of every such page): a
  page with a word-boundary delimited match of the token in its tags and none in its title
  is ranked strictly above a page where the token has no word-boundary delimited match in
  title, tags or body (it occurs only inside longer words), provided fewer than three
  sections of that page contain the token.
\<close>

theorem tag_match_outranks_substring:
  assumes q: "tokenize (toLowerCase (trim q)) = [tok]"
    and titled: "\<forall>pg \<in> set ps. page_qualifies [tok] pg \<longrightarrow> title pg \<noteq> None"
    and a: "a < length ps" "indexed (ps ! a)"
           "whole_word tok (toLowerCase (join '' '' (tagsSet (ps ! a))))"
           "\<not> whole_word tok (toLowerCase (title_str (ps ! a)))"
    and b: "b < length ps" "page_qualifies [tok] (ps ! b)"
           "\<not> whole_word tok (toLowerCase (title_str (ps ! b)))"
           "\<not> whole_word tok (toLowerCase (join '' '' (tagsSet (ps ! b))))"
           "\<not> whole_word tok (toLowerCase (content (ps ! b)))"
           "length (filter (sec_qualifies [tok]) (sections (ps ! b))) < 3"
  shows "\<exists>rs i j. search q ps = Inr (Some rs) \<and> i < j \<and> j < length rs
           \<and> ref_p (rs ! i) = a \<and> ref_p (rs ! j) = b \<and> score (rs ! j) < score (rs ! i)"
proof -
  let ?val = "toLowerCase (trim q)"
  have ne: "?val \<noteq> []" using q by (rule tokenize_nonempty)
  have ph: "phrase_of [tok] ?val = None" by (simp add: phrase_of_def)
  have qa0: "page_qualifies [tok] (ps ! a)"
  proof -
    have "includes_s (toLowerCase (join '' '' (tagsSet (ps ! a)))) tok"
      using a(3) by (rule whole_word_includes)
    then obtain u v where "toLowerCase (join '' '' (tagsSet (ps ! a))) = u @ tok @ v"
      by (auto simp: includes_s_iff)
    then have "searchStr (ps ! a) = (toLowerCase (title_str (ps ! a) @ '' '') @ u) @ tok
                 @ (v @ toLowerCase ('' '' @ content (ps ! a)))"
      using a(2) by (simp add: indexed_def toLowerCase_append toLowerCase_simps)
    then have "includes_s (searchStr (ps ! a)) tok"
      unfolding includes_s_iff by blast
    then show ?thesis by (simp add: page_qualifies_def)
  qed
  have "ps ! a \<in> set ps" using a(1) by simp
  then obtain ta where ta: "title (ps ! a) = Some ta" using titled qa0 by blast
  have "ps ! b \<in> set ps" using b(1) by simp
  then obtain tb where tb: "title (ps ! b) = Some tb" using titled b(2) by blast
  let ?sa = "token_score tok (toLowerCase ta) (toLowerCase (join '' '' (tagsSet (ps ! a))))
               (toLowerCase (content (ps ! a)))
             + min W_secCountCap (length (filter (sec_qualifies [tok]) (sections (ps ! a))))"
  let ?sb = "token_score tok (toLowerCase tb) (toLowerCase (join '' '' (tagsSet (ps ! b))))
               (toLowerCase (content (ps ! b)))
             + min W_secCountCap (length (filter (sec_qualifies [tok]) (sections (ps ! b))))"
  have qa: "page_qualifies [tok] (ps ! a)" by (rule qa0)
  have "W_tag \<le> token_score tok (toLowerCase ta) (toLowerCase (join '' '' (tagsSet (ps ! a))))
               (toLowerCase (content (ps ! a)))"
    using a(3,4) ta by (intro token_score_tag_only) (simp_all add: title_str_def)
  then have sa: "3 \<le> ?sa" by (simp add: W_tag_def)
  have "token_score tok (toLowerCase tb) (toLowerCase (join '' '' (tagsSet (ps ! b))))
               (toLowerCase (content (ps ! b))) = 0"
    using b(3,4,5) tb by (intro token_score_none) (simp_all add: title_str_def)
  then have sb: "?sb < 3" using b(6) by simp
  have "\<exists>rs i j. search q ps = Inr (Some rs) \<and> i < j \<and> j < length rs
           \<and> ref_p (rs ! i) = a \<and> score (rs ! i) = ?sa
           \<and> ref_p (rs ! j) = b \<and> score (rs ! j) = ?sb"
  proof (rule search_ranks_by_score [where tokens = "[tok]" and phrase = None and val = ?val])
    show "toLowerCase (trim q) = ?val" by simp
    show "?val \<noteq> []" by (rule ne)
    show "[tok] = tokenize ?val" using q by simp
    show "None = phrase_of [tok] ?val" using ph by simp
    show "\<forall>pg \<in> set ps. page_qualifies [tok] pg \<longrightarrow> title pg \<noteq> None" by (rule titled)
    show "a < length ps" by (rule a(1))
    show "page_qualifies [tok] (ps ! a)" by (rule qa)
    show "page_score [tok] None (ps ! a) = Inr (?sa, match_sections [tok] None (sections (ps ! a)))"
      by (rule page_score_single [OF ta])
    show "b < length ps" by (rule b(1))
    show "page_qualifies [tok] (ps ! b)" by (rule b(2))
    show "page_score [tok] None (ps ! b) = Inr (?sb, match_sections [tok] None (sections (ps ! b)))"
      by (rule page_score_single [OF tb])
    show "?sb < ?sa" using sa sb by linarith
  qed
  then obtain rs i j where "search q ps = Inr (Some rs)" "i < j" "j < length rs"
    "ref_p (rs ! i) = a" "score (rs ! i) = ?sa" "ref_p (rs ! j) = b" "score (rs ! j) = ?sb"
    by blast
  then show ?thesis using sa sb by (intro exI [of _ rs] exI [of _ i] exI [of _ j]) simp
qed

theorem tag_match_not_always_above:
  "case parseMarkdownBundle bundle_tag_substring of
     Inl e \<Rightarrow> False
   | Inr m \<Rightarrow>
       whole_word ''foo'' (toLowerCase (join '' '' (tagsSet (pages m ! 0))))
       \<and> \<not> includes_s (toLowerCase (title_str (pages m ! 0))) ''foo''
       \<and> \<not> includes_s (toLowerCase (content (pages m ! 0))) ''foo''
       \<and> \<not> whole_word ''foo'' (toLowerCase (title_str (pages m ! 1)))
       \<and> \<not> whole_word ''foo'' (toLowerCase (join '' '' (tagsSet (pages m ! 1))))
       \<and> \<not> whole_word ''foo'' (toLowerCase (content (pages m ! 1)))
       \<and> includes_s (toLowerCase (content (pages m ! 1))) ''foobar''
       \<and> ranking (search ''foo'' (pages m)) = Some [(1, 4), (0, 3)]"
  by code_simp

theorem tag_match_outranks_substring_witness:
  "tokenize (toLowerCase (trim ''foo'')) = [''foo'']
   \<and> list_all (\<lambda>pg. title pg \<noteq> None) (pages_of bundle_tag_substring2)
   \<and> 0 < length (pages_of bundle_tag_substring2)
   \<and> indexed (pages_of bundle_tag_substring2 ! 0)
   \<and> whole_word ''foo'' (toLowerCase (join '' '' (tagsSet (pages_of bundle_tag_substring2 ! 0))))
   \<and> \<not> whole_word ''foo'' (toLowerCase (title_str (pages_of bundle_tag_substring2 ! 0)))
   \<and> 1 < length (pages_of bundle_tag_substring2)
   \<and> page_qualifies [''foo''] (pages_of bundle_tag_substring2 ! 1)
   \<and> \<not> whole_word ''foo'' (toLowerCase (title_str (pages_of bundle_tag_substring2 ! 1)))
   \<and> \<not> whole_word ''foo'' (toLowerCase (join '' '' (tagsSet (pages_of bundle_tag_substring2 ! 1))))
   \<and> \<not> whole_word ''foo'' (toLowerCase (content (pages_of bundle_tag_substring2 ! 1)))
   \<and> length (filter (sec_qualifies [''foo'']) (sections (pages_of bundle_tag_substring2 ! 1))) = 2
   \<and> (\<exists>rs i j. search ''foo'' (pages_of bundle_tag_substring2) = Inr (Some rs) \<and> i < j
          \<and> j < length rs \<and> ref_p (rs ! i) = 0 \<and> ref_p (rs ! j) = 1
          \<and> score (rs ! j) < score (rs ! i))"
  (is "?h1 \<and> ?h2 \<and> ?h3 \<and> ?h4 \<and> ?h5 \<and> ?h6 \<and> ?h7 \<and> ?h8 \<and> ?h9 \<and> ?h10 \<and> ?h11 \<and> ?h12 \<and> ?c")
proof -
  have h: "?h1 \<and> ?h2 \<and> ?h3 \<and> ?h4 \<and> ?h5 \<and> ?h6 \<and> ?h7 \<and> ?h8 \<and> ?h9 \<and> ?h10 \<and> ?h11 \<and> ?h12"
    by code_simp
  have "?c"
  proof (rule tag_match_outranks_substring)
    show "tokenize (toLowerCase (trim ''foo'')) = [''foo'']" using h by blast
    show "\<forall>pg \<in> set (pages_of bundle_tag_substring2).
            page_qualifies [''foo''] pg \<longrightarrow> title pg \<noteq> None"
      using h unfolding list_all_iff by blast
    show "length (filter (sec_qualifies [''foo'']) (sections (pages_of bundle_tag_substring2 ! 1))) < 3"
      using h by linarith
  qed (use h in blast)+
  with h show ?thesis by blast
qed

lemma fold_add_le:
  "(\<And>x. x \<in> set xs \<Longrightarrow> f x \<le> (k::nat)) \<Longrightarrow> fold (\<lambda>x acc. acc + f x) xs a \<le> a + length xs * k"
proof (induction xs arbitrary: a)
  case Nil
  then show ?case by simp
next
  case (Cons x xs)
  have "fold (\<lambda>x acc. acc + f x) xs (a + f x) \<le> (a + f x) + length xs * k"
    using Cons by simp
  moreover have "f x \<le> k" using Cons.prems by simp
  ultimately show ?case by simp
qed

lemma fold_add_ge:
  "(\<And>x. x \<in> set xs \<Longrightarrow> (k::nat) \<le> f x) \<Longrightarrow> a + length xs * k \<le> fold (\<lambda>x acc. acc + f x) xs a"
proof (induction xs arbitrary: a)
  case Nil
  then show ?case by simp
next
  case (Cons x xs)
  have "(a + f x) + length xs * k \<le> fold (\<lambda>x acc. acc + f x) xs (a + f x)"
    using Cons by simp
  moreover have "k \<le> f x" using Cons.prems by simp
  ultimately show ?case by simp
qed

lemma fold_add_mono:
  "(\<And>x. x \<in> set xs \<Longrightarrow> f x \<le> (g x :: nat)) \<Longrightarrow> a \<le> b \<Longrightarrow>
   fold (\<lambda>x acc. acc + f x) xs a \<le> fold (\<lambda>x acc. acc + g x) xs b"
proof (induction xs arbitrary: a b)
  case Nil
  then show ?case by simp
next
  case (Cons x xs)
  have "f x \<le> g x" using Cons.prems by simp
  then have "a + f x \<le> b + g x" using Cons.prems(2) by simp
  then show ?case using Cons by simp
qed

lemma length_match_sections_le: "length (match_sections tokens phrase secs) \<le> length secs"
  by (simp add: match_sections_def length_sort_cmp)

lemma page_score_phrase_title:
  assumes toks: "tokenize val = [w1, w2]"
    and p1: "title pg1 = Some t1" "includes_s (toLowerCase t1) val"
            "whole_word w1 (toLowerCase t1)" "whole_word w2 (toLowerCase t1)"
    and p2: "title pg2 = Some t2"
            "\<not> whole_word w1 (toLowerCase t2)" "\<not> whole_word w2 (toLowerCase t2)"
            "\<not> whole_word w1 (toLowerCase (join '' '' (tagsSet pg2)))"
            "\<not> whole_word w2 (toLowerCase (join '' '' (tagsSet pg2)))"
            "\<not> includes_s (toLowerCase t2) val" "\<not> includes_s (toLowerCase (content pg2)) val"
  shows "\<exists>s1 m1 s2 m2.
           page_score (tokenize val) (phrase_of (tokenize val) val) pg1 = Inr (s1, m1)
         \<and> page_score (tokenize val) (phrase_of (tokenize val) val) pg2 = Inr (s2, m2)
         \<and> s2 \<le> 6 \<and> 15 \<le> s1 \<and> s2 \<le> s1"
proof -
  have ph: "phrase_of (tokenize val) val = Some val" by (simp add: toks phrase_of_def)
  let ?g1 = "\<lambda>tok. token_score tok (toLowerCase t1) (toLowerCase (join '' '' (tagsSet pg1)))
                     (toLowerCase (content pg1))"
  let ?g2 = "\<lambda>tok. token_score tok (toLowerCase t2) (toLowerCase (join '' '' (tagsSet pg2)))
                     (toLowerCase (content pg2))"
  have "W_title \<le> ?g1 w1" "W_title \<le> ?g1 w2"
    using p1(3,4) by (simp_all add: token_score_title)
  then have a1: "10 \<le> fold (\<lambda>tok sc. sc + ?g1 tok) [w1, w2] 0" by (simp add: W_title_def)
  have b1: "phrase_bonus (Some val) (toLowerCase t1) (toLowerCase (content pg1)) = 5"
    using p1(2) by (simp add: phrase_bonus_def W_phraseTitle_def)
  have "?g2 w1 \<le> W_body" "?g2 w2 \<le> W_body"
    using p2(2-5) by (simp_all add: token_score_body_only)
  then have a2: "fold (\<lambda>tok sc. sc + ?g2 tok) [w1, w2] 0 \<le> 2" by (simp add: W_body_def)
  have b2: "phrase_bonus (Some val) (toLowerCase t2) (toLowerCase (content pg2)) = 0"
    using p2(6,7) by (simp add: phrase_bonus_def)
  obtain s1 m1 where s1: "page_score [w1, w2] (Some val) pg1 = Inr (s1, m1)"
    using page_score_titled [OF p1(1)] by blast
  obtain s2 m2 where s2: "page_score [w1, w2] (Some val) pg2 = Inr (s2, m2)"
    using page_score_titled [OF p2(1)] by blast
  have "15 \<le> s1" using s1 a1 b1 p1(1) by (auto simp: page_score_def Let_def)
  moreover have "s2 \<le> 6" using s2 a2 b2 p2(1)
    by (auto simp: page_score_def Let_def W_secCountCap_def)
  ultimately show ?thesis using s1 s2 by (auto simp: toks phrase_of_def)
qed

text \<open>
  C8, amended. For a query of two tokens (two words of at least two characters each): a page
  whose title contains the lowercased query as a substring and each of the two words
  between word boundaries has a total score of at least 15; a page where the words have no
  word-boundary delimited match in title or tags and the query is a substring of neither
  title nor body has a total score of at most 6.
\<close>

theorem phrase_in_title_outscores_body_words:
  assumes "tokenize (toLowerCase (trim q)) = [w1, w2]"
    and "title pg1 = Some t1" "includes_s (toLowerCase t1) (toLowerCase (trim q))"
        "whole_word w1 (toLowerCase t1)" "whole_word w2 (toLowerCase t1)"
    and "title pg2 = Some t2"
        "\<not> whole_word w1 (toLowerCase t2)" "\<not> whole_word w2 (toLowerCase t2)"
        "\<not> whole_word w1 (toLowerCase (join '' '' (tagsSet pg2)))"
        "\<not> whole_word w2 (toLowerCase (join '' '' (tagsSet pg2)))"
        "\<not> includes_s (toLowerCase t2) (toLowerCase (trim q))"
        "\<not> includes_s (toLowerCase (content pg2)) (toLowerCase (trim q))"
  shows "\<exists>s1 m1 s2 m2.
           page_score (tokenize (toLowerCase (trim q)))
             (phrase_of (tokenize (toLowerCase (trim q))) (toLowerCase (trim q))) pg1 = Inr (s1, m1)
         \<and> page_score (tokenize (toLowerCase (trim q)))
             (phrase_of (tokenize (toLowerCase (trim q))) (toLowerCase (trim q))) pg2 = Inr (s2, m2)
         \<and> s2 \<le> 6 \<and> 15 \<le> s1 \<and> s2 \<le> s1"
  using assms by (rule page_score_phrase_title)

theorem phrase_query_single_letters:
  "includes_s (toLowerCase (title_str (pages_of bundle_single_letters ! 0))) (toLowerCase (trim ''a b''))
   \<and> whole_word ''a'' (toLowerCase (content (pages_of bundle_single_letters ! 1)))
   \<and> whole_word ''b'' (toLowerCase (content (pages_of bundle_single_letters ! 1)))
   \<and> \<not> includes_s (toLowerCase (content (pages_of bundle_single_letters ! 1))) ''a b''
   \<and> \<not> includes_s (toLowerCase (title_str (pages_of bundle_single_letters ! 1))) ''a''
   \<and> \<not> includes_s (toLowerCase (title_str (pages_of bundle_single_letters ! 1))) ''b''
   \<and> tagsSet (pages_of bundle_single_letters ! 1) = []
   \<and> ranking (search ''a b'' (pages_of bundle_single_letters)) = Some [(1, 1), (0, 0)]"
  by code_simp

theorem phrase_in_title_outscores_body_words_witness:
  "tokenize (toLowerCase (trim ''foo bar'')) = [''foo'', ''bar'']
   \<and> title (pages_of bundle_phrase ! 0) = Some ''Foo Bar''
   \<and> includes_s (toLowerCase ''Foo Bar'') (toLowerCase (trim ''foo bar''))
   \<and> whole_word ''foo'' (toLowerCase ''Foo Bar'') \<and> whole_word ''bar'' (toLowerCase ''Foo Bar'')
   \<and> title (pages_of bundle_phrase ! 1) = Some ''T''
   \<and> \<not> whole_word ''foo'' (toLowerCase ''T'') \<and> \<not> whole_word ''bar'' (toLowerCase ''T'')
   \<and> \<not> whole_word ''foo'' (toLowerCase (join '' '' (tagsSet (pages_of bundle_phrase ! 1))))
   \<and> \<not> whole_word ''bar'' (toLowerCase (join '' '' (tagsSet (pages_of bundle_phrase ! 1))))
   \<and> \<not> includes_s (toLowerCase ''T'') (toLowerCase (trim ''foo bar''))
   \<and> \<not> includes_s (toLowerCase (content (pages_of bundle_phrase ! 1))) (toLowerCase (trim ''foo bar''))
   \<and> (\<exists>s1 m1 s2 m2.
         page_score (tokenize (toLowerCase (trim ''foo bar'')))
           (phrase_of (tokenize (toLowerCase (trim ''foo bar''))) (toLowerCase (trim ''foo bar'')))
           (pages_of bundle_phrase ! 0) = Inr (s1, m1)
       \<and> page_score (tokenize (toLowerCase (trim ''foo bar'')))
           (phrase_of (tokenize (toLowerCase (trim ''foo bar''))) (toLowerCase (trim ''foo bar'')))
           (pages_of bundle_phrase ! 1) = Inr (s2, m2)
       \<and> s2 \<le> 6 \<and> 15 \<le> s1 \<and> s2 \<le> s1)"
  (is "?h1 \<and> ?h2 \<and> ?h3 \<and> ?h4 \<and> ?h5 \<and> ?h6 \<and> ?h7 \<and> ?h8 \<and> ?h9 \<and> ?h10 \<and> ?h11 \<and> ?h12 \<and> ?c")
proof -
  have h: "?h1 \<and> ?h2 \<and> ?h3 \<and> ?h4 \<and> ?h5 \<and> ?h6 \<and> ?h7 \<and> ?h8 \<and> ?h9 \<and> ?h10 \<and> ?h11 \<and> ?h12"
    by code_simp
  have "?c"
    by (rule phrase_in_title_outscores_body_words [where ?t1.0 = "''Foo Bar''" and ?t2.0 = "''T''"])
       (use h in blast)+
  with h show ?thesis by blast
qed

lemma split_ws_no_space: "t \<in> set (split_ws s) \<Longrightarrow> c \<in> set t \<Longrightarrow> \<not> is_space c"
proof (induction s rule: split_ws.induct)
  case (1 s)
  let ?w = "takeWhile (\<lambda>c. \<not> is_space c) s"
  let ?r = "dropWhile (\<lambda>c. \<not> is_space c) s"
  show ?case
  proof (cases "t = ?w")
    case True
    then show ?thesis using "1.prems"(2) by (auto dest: set_takeWhileD)
  next
    case False
    then have "?r \<noteq> []" and "t \<in> set (split_ws (dropWhile is_space ?r))"
      using "1.prems"(1) by (auto simp: split_ws.simps [of s] Let_def split: if_splits)
    then show ?thesis using "1.IH" [OF refl refl] "1.prems"(2) by blast
  qed
qed

lemma tokenize_no_space: "t \<in> set (tokenize s) \<Longrightarrow> c \<in> set t \<Longrightarrow> \<not> is_space c"
  by (auto simp: tokenize_def dest: split_ws_no_space)

lemma boundary_append:
  assumes "j \<le> length t" "\<not> is_word sp"
  shows "boundary (t @ sp # w) j = boundary t j"
proof (cases "j < length t")
  case True
  then show ?thesis by (cases j) (auto simp: boundary_def nth_append)
next
  case False
  then have "j = length t" using assms(1) by simp
  then show ?thesis using assms(2) by (cases j) (auto simp: boundary_def nth_append)
qed

lemma match_at_append:
  assumes "j \<le> length t" "\<not> is_word sp" "sp \<notin> set tok"
  shows "match_at tok (t @ sp # w) j = match_at tok t j"
proof (cases "j + length tok \<le> length t")
  case True
  then have "take (length tok) (drop j (t @ sp # w)) = take (length tok) (drop j t)"
    by simp
  then show ?thesis using True assms by (simp add: match_at_def boundary_append)
next
  case False
  then have short: "length (take (length tok) (drop j t)) < length tok"
    using assms(1) by (simp add: min_def)
  have "take (length tok) (drop j (t @ sp # w)) \<noteq> tok"
  proof
    assume eq: "take (length tok) (drop j (t @ sp # w)) = tok"
    have "take (length tok) (drop j (t @ sp # w))
          = drop j t @ take (length tok - (length t - j)) (sp # w)"
      using assms(1) False by simp
    moreover have "take (length tok - (length t - j)) (sp # w) = sp # take (length tok - (length t - j) - 1) w"
      using False assms(1) by (cases "length tok - (length t - j)") auto
    ultimately have "sp \<in> set tok" using eq by (metis in_set_conv_decomp)
    then show False using assms(3) by simp
  qed
  moreover have "take (length tok) (drop j t) \<noteq> tok" using short by auto
  ultimately show ?thesis by (simp add: match_at_def)
qed

lemma find_append: "List.find P (xs @ ys) = (case List.find P xs of None \<Rightarrow> List.find P ys | Some x \<Rightarrow> Some x)"
  by (induction xs) auto

lemma regex_exec_append:
  assumes "\<not> is_word sp" "sp \<notin> set tok" "regex_exec tok t 0 = Some i"
  shows "regex_exec tok (t @ sp # w) 0 = Some i"
proof -
  let ?xs = "[0..<Suc (length t)]"
  let ?ys = "[Suc (length t)..<Suc (length t) + Suc (length w)]"
  have e: "Suc (length (t @ sp # w)) = Suc (length t) + Suc (length w)" by simp
  have split: "[0..<Suc (length (t @ sp # w))] = ?xs @ ?ys"
    unfolding e by (rule upt_add_eq_append) simp
  have same: "List.find (match_at tok (t @ sp # w)) ?xs = List.find (match_at tok t) ?xs"
    by (rule find_cong) (auto simp: match_at_append assms)
  have old: "List.find (match_at tok t) ?xs = Some i"
    using assms(3) unfolding regex_exec_def .
  have "regex_exec tok (t @ sp # w) 0 = List.find (match_at tok (t @ sp # w)) (?xs @ ?ys)"
    unfolding regex_exec_def split ..
  also have "\<dots> = Some i"
    unfolding find_append same old by simp
  finally show ?thesis .
qed

lemma token_score_title_append:
  assumes "\<not> is_word sp" "sp \<notin> set tok"
  shows "token_score tok t tagsL bodyL \<le> token_score tok (t @ sp # w) tagsL bodyL"
proof (cases "regex_exec tok t 0")
  case (Some i)
  then have "regex_exec tok (t @ sp # w) 0 = Some i" using assms by (intro regex_exec_append)
  then show ?thesis using Some by (simp add: token_score_def test_def)
next
  case None
  then have old: "test tok t 0 = (False, 0)" by (simp add: test_def)
  show ?thesis
  proof (cases "regex_exec tok (t @ sp # w) 0")
    case None
    then show ?thesis using old by (simp add: token_score_def test_def)
  next
    case (Some i)
    then have "W_title \<le> token_score tok (t @ sp # w) tagsL bodyL"
      by (simp add: token_score_def test_def split: prod.splits)
    moreover have "token_score tok t tagsL bodyL \<le> W_tag + W_body"
      using old by (simp add: token_score_def split: prod.splits)
    ultimately show ?thesis by (simp add: W_title_def W_tag_def W_body_def)
  qed
qed

lemma includes_s_no_straddle:
  assumes "includes_s (x @ sp # r) tok" "sp \<notin> set tok"
  shows "includes_s x tok \<or> includes_s r tok"
proof -
  from assms(1) obtain a b where ab: "x @ sp # r = a @ tok @ b" by (auto simp: includes_s_iff)
  then consider u where "x = a @ u" "u @ sp # r = tok @ b" | u where "x @ u = a" "sp # r = u @ tok @ b"
    by (auto simp: append_eq_append_conv2)
  then show ?thesis
  proof cases
    case 1
    from 1(2) consider v where "u = tok @ v" | v where "u @ v = tok" "sp # r = v @ b" "v \<noteq> []"
      by (auto simp: append_eq_append_conv2) (metis append.right_neutral)
    then show ?thesis
    proof cases
      case 1
      then have "x = a @ tok @ v" using \<open>x = a @ u\<close> by simp
      then show ?thesis unfolding includes_s_iff by blast
    next
      case 2
      then have "sp \<in> set tok" by (cases v) auto
      then show ?thesis using assms(2) by simp
    qed
  next
    case 2
    show ?thesis
    proof (cases u)
      case Nil
      then have "sp \<in> set tok \<or> tok = []" using 2(2) by (cases tok) auto
      then have "tok = []" using assms(2) by simp
      then show ?thesis by (auto simp: includes_s_iff)
    next
      case (Cons c u')
      then have "r = u' @ tok @ b" using 2(2) by simp
      then show ?thesis unfolding includes_s_iff by blast
    qed
  qed
qed

lemma lower_char_space: "lower_char CHR '' '' = CHR '' ''"
  by (simp add: lower_char_def)

lemma not_word_space: "\<not> is_word CHR '' ''"
  by (simp add: is_word_def)

lemma phrase_bonus_title_append:
  "phrase_bonus phrase t bodyL \<le> phrase_bonus phrase (t @ u) bodyL"
  by (cases phrase) (auto simp: phrase_bonus_def includes_s_append W_phraseTitle_def W_phraseBody_def)

lemma page_score_title_append:
  assumes pg: "indexed pg" "title pg = Some t"
    and toks: "\<forall>tok \<in> set tokens. \<forall>c \<in> set tok. \<not> is_space c"
    and qual: "page_qualifies tokens pg"
  shows "\<exists>s s' ms. page_score tokens phrase pg = Inr (s, ms)
           \<and> page_score tokens phrase (with_title pg (t @ '' '' @ w)) = Inr (s', ms)
           \<and> s \<le> s' \<and> page_qualifies tokens (with_title pg (t @ '' '' @ w))"
proof -
  let ?pg' = "with_title pg (t @ '' '' @ w)"
  let ?tagsL = "toLowerCase (join '' '' (tagsSet pg))"
  let ?bodyL = "toLowerCase (content pg)"
  let ?T = "toLowerCase t"
  let ?T' = "toLowerCase t @ CHR '' '' # toLowerCase w"
  have low: "toLowerCase (t @ '' '' @ w) = ?T'"
    by (simp add: toLowerCase_append toLowerCase_simps lower_char_space)
  have nosp: "CHR '' '' \<notin> set tok" if "tok \<in> set tokens" for tok
    using toks that by (auto simp: is_space_def)
  have tok_le: "token_score tok ?T ?tagsL ?bodyL \<le> token_score tok ?T' ?tagsL ?bodyL"
    if "tok \<in> set tokens" for tok
    using nosp [OF that] by (intro token_score_title_append not_word_space)
  have fold_le: "fold (\<lambda>tok sc. sc + token_score tok ?T ?tagsL ?bodyL) tokens 0
                 \<le> fold (\<lambda>tok sc. sc + token_score tok ?T' ?tagsL ?bodyL) tokens 0"
    by (rule fold_add_mono) (simp_all add: tok_le)
  have ph_le: "phrase_bonus phrase ?T ?bodyL \<le> phrase_bonus phrase ?T' ?bodyL"
    by (rule phrase_bonus_title_append)
  have same: "tagsSet ?pg' = tagsSet pg" "content ?pg' = content pg" "sections ?pg' = sections pg"
    "title ?pg' = Some (t @ '' '' @ w)"
    by (simp_all add: with_title_def)
  let ?ms = "match_sections tokens phrase (sections pg)"
  let ?s = "fold (\<lambda>tok sc. sc + token_score tok ?T ?tagsL ?bodyL) tokens 0
            + phrase_bonus phrase ?T ?bodyL + min W_secCountCap (length ?ms)"
  let ?s' = "fold (\<lambda>tok sc. sc + token_score tok ?T' ?tagsL ?bodyL) tokens 0
            + phrase_bonus phrase ?T' ?bodyL + min W_secCountCap (length ?ms)"
  have old: "page_score tokens phrase pg = Inr (?s, ?ms)"
    using pg(2) by (simp add: page_score_def Let_def)
  have low2: "toLowerCase (t @ CHR '' '' # w) = ?T'"
    using low by simp
  have new: "page_score tokens phrase ?pg' = Inr (?s', ?ms)"
    unfolding page_score_def same Let_def by (simp add: low2)
  have le: "?s \<le> ?s'" using fold_le ph_le by linarith
  have q': "page_qualifies tokens ?pg'"
    unfolding page_qualifies_def list_all_iff
  proof
    fix tok assume tk: "tok \<in> set tokens"
    let ?rest = "toLowerCase (join '' '' (tagsSet pg) @ '' '' @ content pg)"
    have s_old: "searchStr pg = ?T @ CHR '' '' # ?rest"
      using pg by (simp add: indexed_def title_str_def toLowerCase_append toLowerCase_simps lower_char_space)
    have s_new: "searchStr ?pg' = ?T @ CHR '' '' # toLowerCase w @ CHR '' '' # ?rest"
      by (simp add: with_title_def toLowerCase_append toLowerCase_simps lower_char_space)
    have "includes_s (searchStr pg) tok"
      using qual tk by (simp add: page_qualifies_def list_all_iff)
    then have "includes_s ?T tok \<or> includes_s ?rest tok"
      unfolding s_old using nosp [OF tk] by (rule includes_s_no_straddle)
    then show "includes_s (searchStr ?pg') tok"
    proof
      assume "includes_s ?T tok"
      then show ?thesis unfolding s_new by (simp add: includes_s_append)
    next
      assume "includes_s ?rest tok"
      then have "includes_s ((?T @ CHR '' '' # toLowerCase w @ [CHR '' '']) @ ?rest) tok"
        by (intro includes_s_append) simp
      then show ?thesis unfolding s_new by simp
    qed
  qed
  from old new le q' show ?thesis by blast
qed

text \<open>
  C5, amended. For every query and every page that qualifies: the same page with a further
  word (in particular a further occurrence of a query token) appended to its title after a
  space qualifies too, has the same matched sections, and a total score that is not lower.
\<close>

theorem score_monotone_title_append:
  assumes "indexed pg" "title pg = Some t"
    and "tokens = tokenize (toLowerCase (trim q))"
    and "phrase = phrase_of tokens (toLowerCase (trim q))"
    and "page_qualifies tokens pg"
  shows "\<exists>s s' ms. page_score tokens phrase pg = Inr (s, ms)
           \<and> page_score tokens phrase (with_title pg (t @ '' '' @ w)) = Inr (s', ms)
           \<and> s \<le> s' \<and> page_qualifies tokens (with_title pg (t @ '' '' @ w))"
proof -
  have "\<forall>tok \<in> set tokens. \<forall>c \<in> set tok. \<not> is_space c"
    using assms(3) tokenize_no_space by blast
  from page_score_title_append [OF assms(1,2) this assms(5)] show ?thesis .
qed

theorem score_not_monotone_in_title:
  "pages_of bundle_doubled = [with_title (pages_of bundle_word ! 0) (''foo'' @ ''foo'')]
   \<and> ranking (search ''foo'' (pages_of bundle_word)) = Some [(0, 5)]
   \<and> ranking (search ''foo'' (pages_of bundle_doubled)) = Some [(0, 0)]"
  by code_simp

lemma title_occurrence_lowers_score:
  "pages_of bundle_late_tag2 = [with_title (pages_of bundle_late_tag ! 0) (''foo '' @ ''bar foo'')]
   \<and> ranking (search ''bar foo'' (pages_of bundle_late_tag)) = Some [(0, 19)]
   \<and> ranking (search ''bar foo'' (pages_of bundle_late_tag2)) = Some [(0, 16)]"
  by code_simp

theorem score_monotone_title_append_witness:
  "indexed (pages_of bundle_word ! 0)
   \<and> title (pages_of bundle_word ! 0) = Some ''foo''
   \<and> page_qualifies (tokenize (toLowerCase (trim ''foo''))) (pages_of bundle_word ! 0)
   \<and> (\<exists>s s' ms.
         page_score (tokenize (toLowerCase (trim ''foo'')))
           (phrase_of (tokenize (toLowerCase (trim ''foo''))) (toLowerCase (trim ''foo'')))
           (pages_of bundle_word ! 0) = Inr (s, ms)
       \<and> page_score (tokenize (toLowerCase (trim ''foo'')))
           (phrase_of (tokenize (toLowerCase (trim ''foo''))) (toLowerCase (trim ''foo'')))
           (with_title (pages_of bundle_word ! 0) (''foo'' @ '' '' @ ''foo'')) = Inr (s', ms)
       \<and> s \<le> s'
       \<and> page_qualifies (tokenize (toLowerCase (trim ''foo'')))
           (with_title (pages_of bundle_word ! 0) (''foo'' @ '' '' @ ''foo'')))"
  (is "?h1 \<and> ?h2 \<and> ?h3 \<and> ?c")
proof -
  have h: "?h1 \<and> ?h2 \<and> ?h3" by code_simp
  have "?c"
    by (rule score_monotone_title_append [OF _ _ refl refl]) (use h in blast)+
  with h show ?thesis by blast
qed

text \<open>
  C1. The three tests of a token share one expression object with the flag \<^verbatim>\<open>g\<close>: a page
  whose title, tags and body are all the word foo has a word-boundary delimited match in
  each field, and the query foo gives it 5 + 1, not 5 + 3 + 1: the test of the tags starts
  at the index where the match in the title ended.
\<close>

theorem token_weights_carry_lastIndex:
  "whole_word ''foo'' (toLowerCase (title_str (pages_of bundle_three_fields ! 0)))
   \<and> whole_word ''foo'' (toLowerCase (join '' '' (tagsSet (pages_of bundle_three_fields ! 0))))
   \<and> whole_word ''foo'' (toLowerCase (content (pages_of bundle_three_fields ! 0)))
   \<and> sections (pages_of bundle_three_fields ! 0) = []
   \<and> token_score ''foo'' ''foo'' ''foo'' ''foo'' = W_title + W_body
   \<and> ranking (search ''foo'' (pages_of bundle_three_fields)) = Some [(0, 6)]"
  by code_simp

lemma scan_lines_append:
  "scan_lines c (xs @ ys) st =
     (case scan_lines c xs st of Inl e \<Rightarrow> Inl e | Inr st' \<Rightarrow> scan_lines c ys st')"
  by (induction xs arbitrary: st) (auto split: sum.splits)

lemma scan_line_inFence:
  "scan_line c line st = Inr st' \<Longrightarrow> inFence st' = (if is_fence line then \<not> inFence st else inFence st)"
  by (auto simp: scan_line_def Let_def split: if_splits option.splits prod.splits)

lemma scan_lines_inFence:
  "scan_lines c ls st = Inr st' \<Longrightarrow>
   inFence st' = (if odd (length (filter is_fence ls)) then \<not> inFence st else inFence st)"
proof (induction ls arbitrary: st)
  case Nil
  then show ?case by simp
next
  case (Cons l ls)
  then obtain st1 where st1: "scan_line c l st = Inr st1" "scan_lines c ls st1 = Inr st'"
    by (auto split: sum.splits)
  from scan_line_inFence [OF st1(1)] Cons.IH [OF st1(2)] show ?case by auto
qed

lemma heading_not_fence: "heading_test line \<Longrightarrow> \<not> is_fence line"
  by (cases line) (auto simp: heading_test_def is_fence_def is_hash_def Let_def)

text \<open>
  C4. A line that begins with a heading marker and stands after an odd number of fence
  lines, that is inside a fenced block, is not a heading: the scan of the lines up to and
  including it ends in the state it was in before the line, with only the offset advanced
  past the line. No section is committed, no heading is pending and the counters are as
  before.
\<close>

theorem heading_inside_fence_ignored:
  assumes "scan_lines c before scan0 = Inr st"
    and "odd (length (filter is_fence before))"
    and "heading_test line"
  shows "scan_lines c (before @ [line]) scan0 = Inr (st\<lparr>offset := offset st + length line + 1\<rparr>)"
proof -
  have "inFence st" using scan_lines_inFence [OF assms(1)] assms(2) by (simp add: scan0_def)
  moreover have "\<not> is_fence line" using assms(3) by (rule heading_not_fence)
  ultimately have "scan_line c line st = Inr (st\<lparr>offset := offset st + length line + 1\<rparr>)"
    by (simp add: scan_line_def)
  then show ?thesis using assms(1) by (simp add: scan_lines_append)
qed

theorem heading_inside_fence_ignored_witness:
  "scan_lines (content (pages_of bundle_fenced ! 0)) [''```''] scan0 = Inr (scan0\<lparr>inFence := True, offset := 4\<rparr>)
   \<and> odd (length (filter is_fence [''```'']))
   \<and> heading_test ''# not a heading''
   \<and> split_lines (content (pages_of bundle_fenced ! 0)) = [''```'', ''# not a heading'', ''```'']
   \<and> scan_lines (content (pages_of bundle_fenced ! 0)) ([''```''] @ [''# not a heading'']) scan0
       = Inr (scan0\<lparr>inFence := True, offset := 4 + length ''# not a heading'' + 1\<rparr>)
   \<and> sections (pages_of bundle_fenced ! 0) = []"
  (is "?h1 \<and> ?h2 \<and> ?h3 \<and> ?h4 \<and> ?c \<and> ?d")
proof -
  have h: "?h1 \<and> ?h2 \<and> ?h3 \<and> ?h4 \<and> ?d" by code_simp
  have "?c"
    using heading_inside_fence_ignored [of "content (pages_of bundle_fenced ! 0)" "[''```'']"
        "scan0\<lparr>inFence := True, offset := 4\<rparr>" "''# not a heading''"] h
    by simp
  with h show ?thesis by blast
qed

lemma scan_line_error: "scan_line c line st = Inl e \<Longrightarrow> e = TypeError"
  by (auto simp: scan_line_def Let_def split: if_splits option.splits prod.splits)

lemma scan_lines_error: "scan_lines c ls st = Inl e \<Longrightarrow> e = TypeError"
  by (induction ls arbitrary: st) (auto split: sum.splits dest: scan_line_error)

lemma extract_sections_error: "extract_sections c = Inl e \<Longrightarrow> e = TypeError"
  by (auto simp: extract_sections_def split: sum.splits dest: scan_lines_error)

lemma index_pages_error: "index_pages ps is = Inl e \<Longrightarrow> e = TypeError"
  by (induction "is" arbitrary: ps) (auto split: sum.splits dest: extract_sections_error)

lemma length_index_pages: "index_pages ps is = Inr ps' \<Longrightarrow> length ps' = length ps"
  by (induction "is" arbitrary: ps) (auto split: sum.splits)

lemma length_link_page: "length (link_page by_id rt i ps) = length ps"
  by (simp add: link_page_def Let_def split: option.splits)

lemma length_fold_link: "length (fold (link_page by_id rt) is ps) = length ps"
  by (induction "is" arbitrary: ps) (simp_all add: length_link_page)

text \<open>The error of a bundle without a metadata block, and the number of pages of a parsed bundle.\<close>

lemma parse_no_pages_iff: "parseMarkdownBundle t = Inl NoPagesParsed \<longleftrightarrow> blocks t = []"
  by (auto simp: parseMarkdownBundle_def Let_def split: sum.splits dest: index_pages_error)

lemma parse_length:
  "parseMarkdownBundle t = Inr m \<Longrightarrow> length (pages m) = length (blocks t) \<and> pages m \<noteq> []"
  by (auto simp: parseMarkdownBundle_def Let_def length_fold_link split: if_splits sum.splits
           dest!: length_index_pages)

text \<open>
  C6. A bundle with one metadata block whose content has an empty heading (a marker and one
  space) in the middle: \<^verbatim>\<open>/^(#{1,6})\s+/\<close> accepts the line, \<^verbatim>\<open>/^(#{1,6})\s+(.+)/\<close> does
  not match it, and destructuring the \<^verbatim>\<open>null\<close> raises a TypeError. The parser fails although
  the bundle has a metadata block.
\<close>

theorem parse_raises_on_empty_heading:
  "length (blocks bundle_empty_heading) = 1
   \<and> heading_test ''# '' \<and> heading_match ''# '' = None
   \<and> parseMarkdownBundle bundle_empty_heading = Inl TypeError"
  by code_simp

lemma descendants_frame:
  "descendants m x = Some (n, m') \<Longrightarrow> pages m' = pages m \<and> root m' = root m \<and> byId m' = byId m"
  by (auto simp: descendants_def split: option.splits)

lemma hier_edges_frame:
  "hier_edges is g = Some g' \<Longrightarrow>
   pages (g_model g') = pages (g_model g) \<and> root (g_model g') = root (g_model g)
   \<and> byId (g_model g') = byId (g_model g)"
proof (induction "is" arbitrary: g)
  case Nil
  then show ?case by simp
next
  case (Cons i "is")
  show ?case
  proof (cases "parent (pages (g_model g) ! i)")
    case None
    then show ?thesis using Cons by (simp add: Let_def)
  next
    case (Some q)
    show ?thesis
    proof (cases "isSecondary (pages (g_model g) ! i) \<and> q = root (g_model g)")
      case True
      then show ?thesis using Cons Some by (simp add: Let_def)
    next
      case False
      then obtain d m1 where d: "descendants (g_model g) i = Some (d, m1)"
        using Cons.prems Some by (auto simp: Let_def split: option.splits)
      let ?g1 = "\<lparr>g_links = g_links g @ [\<lparr>source = i, target = q, shared = 0, kind_l = Hier,
                                           tier = Some (tierOf d)\<rparr>],
                  g_adj = touch i q (g_adj g),
                  hierPairs = set_add (pair_key i q) (hierPairs g), g_model = m1\<rparr>"
      have "hier_edges is ?g1 = Some g'"
        using Cons.prems Some False d by (simp add: Let_def)
      from Cons.IH [OF this] descendants_frame [OF d] show ?thesis by simp
    qed
  qed
qed

lemma tag_edges_frame: "g_model (tag_edges sh g) = g_model g"
proof -
  have "g_model (fold f sh g) = g_model g"
    if "\<And>e g. g_model (f e g) = g_model g" for f :: "(nat \<times> nat) \<times> nat \<Rightarrow> gstate \<Rightarrow> gstate"
    using that by (induction sh arbitrary: g) simp_all
  then show ?thesis unfolding tag_edges_def by simp
qed

lemma buildGraphData_frame:
  assumes "buildGraphData m = Some (gr, m')"
  shows "pages m' = number_pages (pages m) \<and> root m' = root m \<and> byId m' = byId m"
proof -
  let ?ps = "number_pages (pages m)"
  let ?g0 = "\<lparr>g_links = [], g_adj = [], hierPairs = [], g_model = m\<lparr>pages := ?ps\<rparr>\<rparr>"
  from assms obtain g where g: "hier_edges [0..<length ?ps] ?g0 = Some g"
    and m': "m' = g_model (tag_edges (shared_counts (tagToPages ?ps)) g)"
    by (auto simp: buildGraphData_def Let_def split: option.splits)
  from hier_edges_frame [OF g] m' show ?thesis by (simp add: tag_edges_frame)
qed

lemma number_pages_nth:
  "i < length ps \<Longrightarrow> number_pages ps ! i = (ps ! i)\<lparr>node_i := Some i\<rparr>"
  by (simp add: number_pages_def)

lemma length_number_pages: "length (number_pages ps) = length ps"
  by (simp add: number_pages_def)

text \<open>
  What the search writes: every write goes to an array that the search has allocated, behind
  the objects it found in the store.
\<close>

lemma keeps_refl: "keeps n st st"
  by (simp add: keeps_def)

lemma keeps_trans: "keeps n st st1 \<Longrightarrow> keeps n st1 st2 \<Longrightarrow> keeps n st st2"
  by (simp add: keeps_def)

lemma keeps_update: "n \<le> a \<Longrightarrow> keeps n st (st[a := ob])"
  by (simp add: keeps_def)

lemma keeps_alloc: "n \<le> length st \<Longrightarrow> alloc ob st = (a, st') \<Longrightarrow> keeps n st st' \<and> n \<le> a \<and> a < length st'"
  by (auto simp: alloc_def keeps_def)

lemma keeps_push_matched: "n \<le> a \<Longrightarrow> keeps n st (push_matched a e st)"
  by (simp add: push_matched_def keeps_update keeps_refl split: obj.splits)

lemma keeps_sort_matched: "n \<le> a \<Longrightarrow> keeps n st (sort_matched a st)"
  by (simp add: sort_matched_def keeps_update keeps_refl split: obj.splits)

lemma keeps_push_scored: "n \<le> a \<Longrightarrow> keeps n st (push_scored a e st)"
  by (simp add: push_scored_def keeps_update keeps_refl split: obj.splits)

lemma keeps_sort_scored: "n \<le> a \<Longrightarrow> keeps n st (sort_scored a st)"
  by (simp add: sort_scored_def keeps_update keeps_refl split: obj.splits)

lemma keeps_match_loop: "n \<le> a \<Longrightarrow> keeps n st (match_loop tokens phrase secs a st)"
proof (induction secs arbitrary: st)
  case Nil
  then show ?case by (simp add: keeps_refl)
next
  case (Cons sec secs)
  show ?case
  proof (cases "sec_qualifies tokens sec")
    case False
    then show ?thesis using Cons by simp
  next
    case True
    have "keeps n st (push_matched a (sec, sec_score tokens phrase sec) st)"
      using Cons.prems by (rule keeps_push_matched)
    moreover have "keeps n (push_matched a (sec, sec_score tokens phrase sec) st)
        (match_loop tokens phrase secs a (push_matched a (sec, sec_score tokens phrase sec) st))"
      using Cons.prems by (rule Cons.IH)
    ultimately show ?thesis using True by (simp add: keeps_trans)
  qed
qed

lemma keeps_visit_page:
  assumes "n \<le> length st" "n \<le> sc_addr" "visit_page tokens phrase sc_addr i st = (r, st')"
  shows "keeps n st st'"
proof (cases "st ! i")
  case (PageObj pg)
  show ?thesis
  proof (cases "page_qualifies tokens pg \<and> title pg \<noteq> None")
    case False
    then have "st' = st" using assms(3) PageObj
      by (auto simp: visit_page_def split: option.splits if_splits)
    then show ?thesis by (simp add: keeps_refl)
  next
    case True
    then obtain t where t: "title pg = Some t" by auto
    obtain a st1 where al: "alloc (MatchedArr []) st = (a, st1)" by (cases "alloc (MatchedArr []) st")
    from keeps_alloc [OF assms(1) al] have k1: "keeps n st st1" and a: "n \<le> a" by simp_all
    let ?st2 = "match_loop tokens phrase (sections pg) a st1"
    let ?st3 = "sort_matched a ?st2"
    have k2: "keeps n st1 ?st2" using a by (rule keeps_match_loop)
    have k3: "keeps n ?st2 ?st3" using a by (rule keeps_sort_matched)
    obtain sc where "st' = push_scored sc_addr (i, sc, a) ?st3"
      using assms(3) PageObj True t al by (auto simp: visit_page_def Let_def)
    moreover have "keeps n ?st3 (push_scored sc_addr (i, sc, a) ?st3)" for sc
      using assms(2) by (rule keeps_push_scored)
    ultimately show ?thesis using k1 k2 k3 by (metis keeps_trans)
  qed
next
  case (MatchedArr xs)
  then have "st' = st" using assms(3) by (simp add: visit_page_def)
  then show ?thesis by (simp add: keeps_refl)
next
  case (ScoredArr xs)
  then have "st' = st" using assms(3) by (simp add: visit_page_def)
  then show ?thesis by (simp add: keeps_refl)
qed

lemma keeps_visit_pages:
  "n \<le> length st \<Longrightarrow> n \<le> sc_addr \<Longrightarrow> visit_pages tokens phrase sc_addr is st = (r, st')
   \<Longrightarrow> keeps n st st'"
proof (induction "is" arbitrary: st)
  case Nil
  then show ?case by (simp add: keeps_refl)
next
  case (Cons i "is")
  obtain r1 st1 where v: "visit_page tokens phrase sc_addr i st = (r1, st1)"
    by (cases "visit_page tokens phrase sc_addr i st")
  from keeps_visit_page [OF Cons.prems(1,2) v] have k1: "keeps n st st1" .
  show ?case
  proof (cases r1)
    case (Some e)
    then have "st' = st1" using Cons.prems(3) v by simp
    then show ?thesis using k1 by simp
  next
    case None
    then have run: "visit_pages tokens phrase sc_addr is st1 = (r, st')" using Cons.prems(3) v by simp
    have "n \<le> length st1" using k1 Cons.prems(1) by (simp add: keeps_def)
    from Cons.IH [OF this Cons.prems(2) run] k1 show ?thesis by (metis keeps_trans)
  qed
qed

lemma search_store_frame:
  assumes "n \<le> length st"
  shows "keeps n st (snd (search_store q n st))"
proof (cases "toLowerCase (trim q) = []")
  case True
  then show ?thesis by (simp add: search_store_def keeps_refl)
next
  case False
  let ?val = "toLowerCase (trim q)"
  obtain sa st1 where al: "alloc (ScoredArr []) st = (sa, st1)" by (cases "alloc (ScoredArr []) st")
  from keeps_alloc [OF assms al] have k1: "keeps n st st1" and sa: "n \<le> sa" by simp_all
  have l1: "n \<le> length st1" using k1 assms by (simp add: keeps_def)
  obtain r st2 where v: "visit_pages (tokenize ?val) (phrase_of (tokenize ?val) ?val) sa [0..<n] st1 = (r, st2)"
    by (cases "visit_pages (tokenize ?val) (phrase_of (tokenize ?val) ?val) sa [0..<n] st1")
  from keeps_visit_pages [OF l1 sa v] have k2: "keeps n st1 st2" .
  have k3: "keeps n st2 (sort_scored sa st2)" using sa by (rule keeps_sort_scored)
  have "snd (search_store q n st) = st2 \<or> snd (search_store q n st) = sort_scored sa st2"
    using False al v by (cases r) (simp_all add: search_store_def Let_def)
  then show ?thesis using k1 k2 k3 by (metis keeps_trans)
qed

lemma search_store_pages:
  "take (length ps) (snd (search_store q (length ps) (store_of ps))) = store_of ps"
  using search_store_frame [of "length ps" "store_of ps" q]
  by (simp add: keeps_def store_of_def)

text \<open>
  C9, amended. The search writes no page: in the store it leaves, whatever the query and
  whether it returns or raises, every page object is the one it found (it writes only the
  arrays it allocates). The graph-data builder leaves the page collection, the root and the
  id table as they are but for one field of every page: it stores the index of the page in
  its field \<^verbatim>\<open>_i\<close>. A collection whose pages hold their indices already (a second run) is
  left unchanged.
\<close>

theorem search_and_graph_frame:
  assumes "buildGraphData m = Some (gr, m')"
  shows "take (length (pages m)) (snd (search_store q (length (pages m)) (store_of (pages m))))
           = store_of (pages m)
       \<and> length (pages m') = length (pages m)
       \<and> (\<forall>i < length (pages m). pages m' ! i = (pages m ! i)\<lparr>node_i := Some i\<rparr>)
       \<and> root m' = root m \<and> byId m' = byId m
       \<and> ((\<forall>i < length (pages m). node_i (pages m ! i) = Some i) \<longrightarrow> pages m' = pages m)"
proof -
  from buildGraphData_frame [OF assms] have
    ps: "pages m' = number_pages (pages m)" and rest: "root m' = root m" "byId m' = byId m"
    by simp_all
  have len: "length (pages m') = length (pages m)" by (simp add: ps length_number_pages)
  have nth: "\<forall>i < length (pages m). pages m' ! i = (pages m ! i)\<lparr>node_i := Some i\<rparr>"
    by (simp add: ps number_pages_nth)
  have "pages m' = pages m" if "\<forall>i < length (pages m). node_i (pages m ! i) = Some i"
  proof (rule nth_equalityI [OF len])
    fix i assume "i < length (pages m')"
    then have i: "i < length (pages m)" using len by simp
    then have "pages m' ! i = (pages m ! i)\<lparr>node_i := Some i\<rparr>" using nth by simp
    also have "\<dots> = pages m ! i" using that i by simp
    finally show "pages m' ! i = pages m ! i" .
  qed
  then show ?thesis using len nth rest search_store_pages [of "pages m" q] by simp
qed

theorem graph_builder_writes_pages:
  "case load bundle_wiki of
     None \<Rightarrow> False
   | Some m \<Rightarrow>
       (case buildGraphData m of
          None \<Rightarrow> False
        | Some (gr, m') \<Rightarrow>
            node_i (pages m ! 0) = None \<and> node_i (pages m' ! 0) = Some 0 \<and> pages m' \<noteq> pages m)"
  by code_simp

theorem search_and_graph_frame_witness:
  "map_option snd (buildGraphData (model_of bundle_wiki)) = Some (graph_model_of (model_of bundle_wiki))
   \<and> 4 < length (pages (model_of bundle_wiki))
   \<and> node_i (pages (model_of bundle_wiki) ! 4) = None
   \<and> fst (search_store ''alpha'' (length (pages (model_of bundle_wiki)))
             (store_of (pages (model_of bundle_wiki))))
       = search ''alpha'' (pages (model_of bundle_wiki))
   \<and> take (length (pages (model_of bundle_wiki)))
         (snd (search_store ''alpha'' (length (pages (model_of bundle_wiki)))
                (store_of (pages (model_of bundle_wiki)))))
       = store_of (pages (model_of bundle_wiki))
   \<and> length (pages (graph_model_of (model_of bundle_wiki))) = length (pages (model_of bundle_wiki))
   \<and> pages (graph_model_of (model_of bundle_wiki)) ! 4
       = (pages (model_of bundle_wiki) ! 4)\<lparr>node_i := Some 4\<rparr>
   \<and> root (graph_model_of (model_of bundle_wiki)) = root (model_of bundle_wiki)
   \<and> byId (graph_model_of (model_of bundle_wiki)) = byId (model_of bundle_wiki)"
  (is "?h1 \<and> ?h2 \<and> ?h3 \<and> ?h4 \<and> ?c")
proof -
  have h: "?h1 \<and> ?h2 \<and> ?h3 \<and> ?h4" by code_simp
  then obtain gr where "buildGraphData (model_of bundle_wiki) = Some (gr, graph_model_of (model_of bundle_wiki))"
    by auto
  from search_and_graph_frame [OF this, of "''alpha''"] h have "?c" by simp
  with h show ?thesis by blast
qed

section \<open>Properties of the hierarchy\<close>

lemma topOf_induct [consumes 1, case_names step]:
  assumes "topOf ps x = Some t"
    and "\<And>f ps x t. (\<And>ps x t. f ps x = Some t \<Longrightarrow> P ps x t) \<Longrightarrow>
           (case parent (ps ! x) of None \<Rightarrow> Some x | Some q \<Rightarrow> f ps q) = Some t \<Longrightarrow> P ps x t"
  shows "P ps x t"
proof -
  have "(case (ps, x) of (a, b) \<Rightarrow> P a b) t"
  proof (rule topOf.raw_induct [where P = P and xa = "(ps, x)" and y = t])
    show "(case (ps, x) of (a, b) \<Rightarrow> topOf a b) = Some t" using assms(1) by simp
  next
    fix f ps x t
    assume "\<And>x b y. f x b = Some y \<Longrightarrow> P x b y"
      and "(case parent (ps ! x) of None \<Rightarrow> Some x | Some q \<Rightarrow> f ps q) = Some t"
    then show "P ps x t" by (rule assms(2))
  qed
  then show ?thesis by simp
qed

lemma segs_loop_induct [consumes 1, case_names step]:
  assumes "segs_loop ps x acc = Some r"
    and "\<And>f ps x acc r. (\<And>ps x acc r. f ps x acc = Some r \<Longrightarrow> P ps x acc r) \<Longrightarrow>
           (case parent (ps ! x) of None \<Rightarrow> Some acc | Some q \<Rightarrow> f ps q (id_p (ps ! x) # acc)) = Some r
           \<Longrightarrow> P ps x acc r"
  shows "P ps x acc r"
proof -
  have "(case ((ps, x), acc) of (a, c) \<Rightarrow> (case a of (a, b) \<Rightarrow> P a b) c) r"
  proof (rule segs_loop.raw_induct [where P = P and xa = "((ps, x), acc)" and y = r])
    show "(case ((ps, x), acc) of (a, c) \<Rightarrow> (case a of (a, b) \<Rightarrow> segs_loop a b) c) = Some r"
      using assms(1) by simp
  next
    fix f ps x acc r
    assume "\<And>x b c y. f x b c = Some y \<Longrightarrow> P x b c y"
      and "(case parent (ps ! x) of None \<Rightarrow> Some acc | Some q \<Rightarrow> f ps q (id_p (ps ! x) # acc)) = Some r"
    then show "P ps x acc r" by (rule assms(2))
  qed
  then show ?thesis by simp
qed

lemma is_chain_topOf: "is_chain ps c \<Longrightarrow> topOf ps (hd c) = Some (last c)"
proof (induction ps c rule: is_chain.induct)
  case (1 ps)
  then show ?case by simp
next
  case (2 ps t)
  then show ?case by (simp add: topOf.simps)
next
  case (3 ps x y c)
  then show ?case by (simp add: topOf.simps [of ps x])
qed

lemma topOf_is_chain: "topOf ps x = Some t \<Longrightarrow> \<exists>c. is_chain ps (x # c) \<and> last (x # c) = t"
proof (induction rule: topOf_induct)
  case (step f ps x t)
  show ?case
  proof (cases "parent (ps ! x)")
    case None
    then have "t = x" using step(2) by simp
    then show ?thesis using None by (intro exI [of _ "[]"]) simp
  next
    case (Some q)
    then have "f ps q = Some t" using step(2) by simp
    from step(1) [OF this] obtain c where c: "is_chain ps (q # c)" "last (q # c) = t" by blast
    have "is_chain ps (x # q # c)" using Some c(1) by simp
    moreover have "last (x # q # c) = t" using c(2) by simp
    ultimately show ?thesis by blast
  qed
qed








lemma wf_links_parts:
  assumes "wf_links ps rt"
  shows "rt < length ps" "parent (ps ! rt) = None"
    "\<forall>x < length ps. \<forall>q. parent (ps ! x) = Some q \<longrightarrow> q < length ps \<and> x \<in> set (children (ps ! q))"
    "\<forall>q < length ps. distinct (children (ps ! q))
       \<and> (\<forall>c \<in> set (children (ps ! q)). c < length ps \<and> parent (ps ! c) = Some q)"
proof -
  note w = assms [unfolded wf_links_def]
  show "rt < length ps" by (rule conjunct1 [OF w])
  show "parent (ps ! rt) = None" by (rule conjunct1 [OF conjunct2 [OF w]])
  show "\<forall>x < length ps. \<forall>q. parent (ps ! x) = Some q \<longrightarrow> q < length ps \<and> x \<in> set (children (ps ! q))"
    by (rule conjunct1 [OF conjunct2 [OF conjunct2 [OF w]]])
  show "\<forall>q < length ps. distinct (children (ps ! q))
       \<and> (\<forall>c \<in> set (children (ps ! q)). c < length ps \<and> parent (ps ! c) = Some q)"
    by (rule conjunct2 [OF conjunct2 [OF conjunct2 [OF w]]])
qed


lemma wf_links_parent:
  assumes "wf_links ps rt" "x < length ps" "parent (ps ! x) = Some q"
  shows "q < length ps \<and> x \<in> set (children (ps ! q))"
  using wf_links_parts(3) [OF assms(1), rule_format, OF assms(2,3)] .





lemma link_page_length [simp]: "length (link_page by_id rt i ps) = length ps"
  by (simp add: link_page_def Let_def split: option.split)
























lemma is_chain_Cons: "is_chain ps (x # c) \<Longrightarrow> parent (ps ! y) = Some x \<Longrightarrow> is_chain ps (y # x # c)"
  by simp







lemma topOf_parent: "parent (ps ! x) = Some q \<Longrightarrow> topOf ps x = topOf ps q"
  by (simp add: topOf.simps [of ps x])



















lemma promote_pages_length [simp]: "length (promote_pages rt rep cid ps) = length ps"
  by (simp add: promote_pages_def Let_def)

lemma promote_pages_parent:
  assumes "rep < length ps" "rt < length ps" "x < length ps"
  shows "parent (promote_pages rt rep cid ps ! x) = (if x = rep then Some rt else parent (ps ! x))"
  using assms by (auto simp: promote_pages_def Let_def nth_list_update)


lemma promote_pages_id:
  assumes "rep < length ps" "rt < length ps" "x < length ps"
  shows "id_p (promote_pages rt rep cid ps ! x) = id_p (ps ! x)"
  using assms by (auto simp: promote_pages_def Let_def nth_list_update)











lemma promos_length [simp]: "length (promos rt ts cid ps) = length ps"
  by (induction ts arbitrary: cid ps) simp_all


lemma promos_parent:
  "rt < length ps \<Longrightarrow> (\<And>t. t \<in> set ts \<Longrightarrow> t < length ps) \<Longrightarrow> x < length ps \<Longrightarrow>
   parent (promos rt ts cid ps ! x) = (if x \<in> set ts then Some rt else parent (ps ! x))"
proof (induction ts arbitrary: cid ps)
  case Nil
  then show ?case by simp
next
  case (Cons t ts)
  let ?ps = "promote_pages rt t cid ps"
  have t: "t < length ps" using Cons.prems(2) by simp
  have "parent (promos rt ts (cid + 1) ?ps ! x) = (if x \<in> set ts then Some rt else parent (?ps ! x))"
    using Cons.prems by (intro Cons.IH) simp_all
  then show ?case
    using promote_pages_parent [OF t Cons.prems(1) Cons.prems(3), of cid] by auto
qed

lemma promos_id:
  "rt < length ps \<Longrightarrow> (\<And>t. t \<in> set ts \<Longrightarrow> t < length ps) \<Longrightarrow> x < length ps \<Longrightarrow>
   id_p (promos rt ts cid ps ! x) = id_p (ps ! x)"
proof (induction ts arbitrary: cid ps)
  case Nil
  then show ?case by simp
next
  case (Cons t ts)
  let ?ps = "promote_pages rt t cid ps"
  have t: "t < length ps" using Cons.prems(2) by simp
  have "id_p (promos rt ts (cid + 1) ?ps ! x) = id_p (?ps ! x)"
    using Cons.prems by (intro Cons.IH) simp_all
  then show ?case
    using promote_pages_id [OF t Cons.prems(1) Cons.prems(3), of cid] by simp
qed







lemma chain_promos:
  assumes wf: "wf_links ps rt"
    and tp: "\<And>t. t \<in> set ts \<Longrightarrow> t < length ps \<and> t \<noteq> rt \<and> parent (ps ! t) = None"
  shows "is_chain ps c \<Longrightarrow> hd c < length ps \<Longrightarrow>
         is_chain (promos rt ts cid ps) (if last c \<in> set ts then c @ [rt] else c)"
proof (induction c)
  case Nil
  then show ?case by simp
next
  case (Cons x c)
  let ?ps = "promos rt ts cid ps"
  note rt = wf_links_parts(1,2) [OF wf]
  have par: "parent (?ps ! y) = (if y \<in> set ts then Some rt else parent (ps ! y))"
    if "y < length ps" for y
    using rt(1) _ that by (rule promos_parent) (use tp in blast)
  have x: "x < length ps" using Cons.prems(2) by simp
  show ?case
  proof (cases c)
    case Nil
    then have px: "parent (ps ! x) = None" using Cons.prems(1) by simp
    have "rt \<notin> set ts" using tp by blast
    then have "parent (?ps ! rt) = None" using par [OF rt(1)] rt(2) by simp
    then show ?thesis using par [OF x] px Nil by simp
  next
    case (Cons y d)
    then have p: "parent (ps ! x) = Some y" and cy: "is_chain ps c" using Cons.prems(1) by simp_all
    from wf_links_parent [OF wf x p] have y: "y < length ps" by blast
    have "x \<notin> set ts" using tp [of x] p by auto
    then have px: "parent (?ps ! x) = Some y" using par [OF x] p by simp
    from Cons.IH [OF cy] y Cons
    have IH: "is_chain ?ps (if last c \<in> set ts then c @ [rt] else c)" by simp
    have l: "last (x # c) = last c" using Cons by simp
    show ?thesis
    proof (cases "last c \<in> set ts")
      case True
      then have "is_chain ?ps (c @ [rt])" using IH by simp
      then have "is_chain ?ps (y # (d @ [rt]))" unfolding Cons by simp
      then have "is_chain ?ps (x # y # (d @ [rt]))" using px by simp
      then have "is_chain ?ps ((x # c) @ [rt])" unfolding Cons by simp
      then show ?thesis unfolding l using True by simp
    next
      case False
      then have "is_chain ?ps c" using IH by simp
      then have "is_chain ?ps (y # d)" unfolding Cons .
      then have "is_chain ?ps (x # y # d)" using px by simp
      then have "is_chain ?ps (x # c)" unfolding Cons .
      then show ?thesis unfolding l using False by simp
    qed
  qed
qed

lemma promos_chain_to_root:
  assumes wf: "wf_links ps rt"
    and tp: "\<And>t. t \<in> set ts \<Longrightarrow> t < length ps \<and> t \<noteq> rt \<and> parent (ps ! t) = None"
    and cov: "\<And>x t. x < length ps \<Longrightarrow> topOf ps x = Some t \<Longrightarrow> t \<noteq> rt \<Longrightarrow> t \<in> set ts"
    and x: "x < length ps" and t: "topOf ps x \<noteq> None"
  shows "\<exists>c. is_chain (promos rt ts cid ps) (x # c) \<and> last (x # c) = rt"
proof -
  from t obtain t' where t': "topOf ps x = Some t'" by blast
  from topOf_is_chain [OF t'] obtain c where c: "is_chain ps (x # c)" "last (x # c) = t'" by blast
  from chain_promos [OF wf tp c(1), of ts cid] x
  have ch: "is_chain (promos rt ts cid ps) (if last (x # c) \<in> set ts then (x # c) @ [rt] else x # c)"
    by simp
  show ?thesis
  proof (cases "t' \<in> set ts")
    case True
    then have "is_chain (promos rt ts cid ps) (x # (c @ [rt]))" using ch c(2) by simp
    moreover have "last (x # (c @ [rt])) = rt" by simp
    ultimately show ?thesis by blast
  next
    case False
    then have "t' = rt" using cov [OF x t'] by blast
    moreover have "is_chain (promos rt ts cid ps) (x # c)" using ch c(2) False by simp
    ultimately show ?thesis using c(2) by blast
  qed
qed




end
